theory Spec2Isabelle
  imports Complex_Main "HOL-Library.Word" "HOL-Library.Sublist"
begin

unbundle bit_operations_syntax

section \<open>The audio streamer of zoomie (class AudioStreamer)\<close>

text \<open>
  A shallow embedding of the class \<open>AudioStreamer\<close>: the PCM16 chunk decoder, the
  playback queue, the scheduling pass with its timers, the life-cycle operations and the
  ambient pad.

  Conventions of the embedding.
  \<^item> Times on the clock of the audio context (\<open>context.currentTime\<close>, start times,
    durations) are real numbers; every operation that reads the clock takes the reading
    as its argument \<open>now\<close>, one reading for the whole call. The properties proved about
    times use only \<open>max\<close>, the order and the addition of a non-negative duration.
  \<^item> A sample is the real number \<open>int16 / 32768\<close>. That quotient has at most 16
    significant bits, so the double division and the store into a \<open>Float32Array\<close> are exact.
  \<^item> Everything the class does to its environment is a field of the state: the
    \<open>AudioBufferSourceNode\<close>s it created, the timers it armed, the lines it wrote with
    \<open>console.error\<close> and the number of calls of \<open>onComplete\<close>.
  \<^item> An operation returns the exception it threw, if any, together with the state it
    left behind, since the mutations made before a throw persist in the object.
  \<^item> The keep-alive oscillator and the worklet taps (\<open>addWorklet\<close>, and the
    \<open>registeredWorklets\<close> part of the scheduling pass) only connect further nodes to the
    output; they read and write none of the fields below and are left out.
\<close>

subsection \<open>Typed arrays and the DataView\<close>

type_synonym byte = "8 word"

text \<open>
  A \<open>Uint8Array\<close> is a view of \<open>length_u8\<close> bytes, starting at \<open>byteOffset\<close>, on an
  \<open>ArrayBuffer\<close>. The decoder reads \<open>chunk.length\<close> and \<open>chunk.buffer\<close>, so both are kept.
\<close>

record uint8array =
  buffer :: "byte list"
  byteOffset :: nat
  length_u8 :: nat

text \<open>The bytes the view shows, and the views of the platform: they lie inside their buffer.\<close>

definition bytes_of :: "uint8array \<Rightarrow> byte list" where
  "bytes_of chunk = take (length_u8 chunk) (drop (byteOffset chunk) (buffer chunk))"

definition wf_view :: "uint8array \<Rightarrow> bool" where
  "wf_view chunk \<longleftrightarrow> byteOffset chunk + length_u8 chunk \<le> length (buffer chunk)"

text \<open>\<open>new Uint8Array(arrayBuffer)\<close>: the view of a whole buffer.\<close>

definition whole :: "byte list \<Rightarrow> uint8array" where
  "whole bs = \<lparr>buffer = bs, byteOffset = 0, length_u8 = length bs\<rparr>"

definition is_whole :: "uint8array \<Rightarrow> bool" where
  "is_whole chunk \<longleftrightarrow> byteOffset chunk = 0 \<and> length_u8 chunk = length (buffer chunk)"

text \<open>The signed 16-bit integer with low byte \<open>lo\<close> and high byte \<open>hi\<close>.\<close>

definition int16_le :: "byte \<Rightarrow> byte \<Rightarrow> int" where
  "int16_le lo hi = sint (push_bit 8 (ucast hi) OR ucast lo :: 16 word)"

text \<open>
  \<open>new DataView(buf).getInt16(off, true)\<close>: the view spans the whole buffer; the read
  throws a RangeError (\<open>None\<close>) when \<open>off + 2\<close> exceeds the byte length of the view.
\<close>

definition getInt16 :: "byte list \<Rightarrow> nat \<Rightarrow> int option" where
  "getInt16 buf off =
     (if off + 2 \<le> length buf then Some (int16_le (buf ! off) (buf ! (off + 1))) else None)"

text \<open>
  \<open>float32Array[i] = v\<close>: a store at an index outside a typed array is ignored.
\<close>

definition typed_set :: "real list \<Rightarrow> nat \<Rightarrow> real \<Rightarrow> real list" where
  "typed_set arr i v = (if i < length arr then arr[i := v] else arr)"

subsection \<open>The chunk decoder\<close>

text \<open>
  The loop of \<open>_processPCM16Chunk\<close>. Its test \<open>i < chunk.length / 2\<close> compares with the
  exact quotient, that is \<open>2 * i < chunk.length\<close>. A read that throws is caught: the index
  is written to the console and the loop goes on with the next index. The result is the
  array together with the indices logged.
\<close>

function processLoop :: "byte list \<Rightarrow> nat \<Rightarrow> nat \<Rightarrow> real list \<Rightarrow> nat list \<Rightarrow> real list \<times> nat list" where
  "processLoop buf len i arr errs =
     (if 2 * i < len then
        (case getInt16 buf (i * 2) of
           Some int16 \<Rightarrow> processLoop buf len (Suc i) (typed_set arr i (real_of_int int16 / 32768)) errs
         | None \<Rightarrow> processLoop buf len (Suc i) arr (errs @ [i]))
      else (arr, errs))"
  by pat_completeness auto
termination
  by (relation "measure (\<lambda>(buf, len, i, arr, errs). len - 2 * i)") auto

declare processLoop.simps [simp del]

text \<open>
  \<open>new Float32Array(chunk.length / 2)\<close>: the constructor converts its argument with
  ToIndex, which truncates, so an odd byte length \<open>2k + 1\<close> gives an array of \<open>k\<close> zeros.
\<close>

definition processPCM16Chunk :: "uint8array \<Rightarrow> real list \<times> nat list" where
  "processPCM16Chunk chunk =
     processLoop (buffer chunk) (length_u8 chunk) 0 (replicate (length_u8 chunk div 2) 0) []"

subsection \<open>Splitting into blocks\<close>

definition bufferSize :: nat where
  "bufferSize = 7680"

definition sampleRate :: real where
  "sampleRate = 24000"

definition initialBufferTime :: real where
  "initialBufferTime = 0.1"

definition SCHEDULE_AHEAD_TIME :: real where
  "SCHEDULE_AHEAD_TIME = 0.2"

text \<open>
  The while loop of \<open>addPCM16\<close>: as long as at least \<open>bufferSize\<close> samples are left, the
  first \<open>bufferSize\<close> of them are pushed on the queue.
\<close>

function splitLoop :: "real list \<Rightarrow> real list list \<Rightarrow> real list \<times> real list list" where
  "splitLoop processingBuffer q =
     (if length processingBuffer \<ge> bufferSize then
        splitLoop (drop bufferSize processingBuffer) (q @ [take bufferSize processingBuffer])
      else (processingBuffer, q))"
  by pat_completeness auto
termination
  by (relation "measure (\<lambda>(pb, q). length pb)") (auto simp: bufferSize_def)

declare splitLoop.simps [simp del]

text \<open>The loop followed by the push of a non-empty remainder.\<close>

definition pushBlocks :: "real list \<Rightarrow> real list list \<Rightarrow> real list list" where
  "pushBlocks samples q =
     (case splitLoop samples q of
        (processingBuffer, q') \<Rightarrow>
          if length processingBuffer > 0 then q' @ [processingBuffer] else q')"

subsection \<open>The state of a streamer and of its environment\<close>

text \<open>
  The handler stored in \<open>source.onended\<close>: \<open>null\<close>, the handler of the unit that emptied
  the queue, or the clean-up handler of any other unit.
\<close>

datatype handler = NoHandler | EndOfQueueHandler | CleanupHandler

text \<open>
  An \<open>AudioBufferSourceNode\<close> made by the scheduling pass: the samples of its buffer, the
  time given to \<open>start\<close>, its \<open>onended\<close> handler, whether \<open>stop()\<close> was called on it, and
  whether the platform has dispatched its \<open>ended\<close> event. A node is identified by its
  position in the list \<open>sources\<close> of all the nodes made.
\<close>

record source_node =
  channelData :: "real list"
  startTime :: real
  onended :: handler
  stopCalled :: bool
  ended :: bool

record gain_node =
  gain_value :: real
  gain_ramps :: "(real \<times> real) list"
  gain_connected :: bool

datatype osc_type = Sine | Triangle

record oscillator_node =
  osc_kind :: osc_type
  frequency :: real
  detune :: real
  osc_running :: bool

record biquad_node =
  filter_frequency :: real
  filter_Q :: real
  filter_connected :: bool

text \<open>
  What a pending one-shot timer runs when it fires. A pending timer is kept as its
  identifier, its callback and its delay in milliseconds.
\<close>

datatype timer_callback = Reschedule | PadTeardown

datatype exn = NotSupportedError

text \<open>
  The fields of the class, from \<open>audioQueue\<close> to \<open>padFilter\<close>, under their names; a
  node is referred to by its position in \<open>sources\<close>. Then the environment: the nodes the
  passes made, the intervals alive, the one-shot timers pending, the next timer identifier,
  the number of lines written with \<open>console.error\<close>, and the number of calls of
  \<open>onComplete\<close>.
\<close>

record streamer =
  audioQueue :: "real list list"
  isPlaying :: bool
  isStreamComplete :: bool
  checkInterval :: "nat option"
  scheduledTime :: real
  gainNode :: gain_node
  activeSources :: "nat set"
  endOfQueueAudioSource :: "nat option"
  padGain :: "gain_node option"
  padOscillators :: "oscillator_node list"
  padFilter :: "biquad_node option"
  sources :: "source_node list"
  intervals :: "nat set"
  timeouts :: "(nat \<times> timer_callback \<times> real) list"
  nextTimerId :: nat
  consoleErrors :: nat
  onCompleteCalls :: nat

text \<open>The constructor. Timer identifiers are the positive integers, handed out in order.\<close>

definition new_streamer :: streamer where
  "new_streamer =
     \<lparr>audioQueue = [], isPlaying = False, isStreamComplete = False, checkInterval = None,
      scheduledTime = 0,
      gainNode = \<lparr>gain_value = 1, gain_ramps = [], gain_connected = True\<rparr>,
      activeSources = {}, endOfQueueAudioSource = None,
      padGain = None, padOscillators = [], padFilter = None,
      sources = [], intervals = {}, timeouts = [], nextTimerId = 1,
      consoleErrors = 0, onCompleteCalls = 0\<rparr>"

text \<open>\<open>if (this.checkInterval)\<close>: a timer identifier is a number, and 0 is falsy.\<close>

definition truthy :: "nat option \<Rightarrow> bool" where
  "truthy t = (case t of None \<Rightarrow> False | Some n \<Rightarrow> n \<noteq> 0)"

definition clearInterval :: "nat \<Rightarrow> streamer \<Rightarrow> streamer" where
  "clearInterval t s = s\<lparr>intervals := intervals s - {t}\<rparr>"

text \<open>
  \<open>if (this.checkInterval) { clearInterval(this.checkInterval); this.checkInterval = null; }\<close>,
  which both the scheduling pass and \<open>stop()\<close> contain.
\<close>

definition clearCheckInterval :: "streamer \<Rightarrow> streamer" where
  "clearCheckInterval s =
     (case checkInterval s of
        None \<Rightarrow> s
      | Some t \<Rightarrow> if truthy (Some t) then (clearInterval t s)\<lparr>checkInterval := None\<rparr> else s)"

definition invokeOnComplete :: "streamer \<Rightarrow> streamer" where
  "invokeOnComplete s = s\<lparr>onCompleteCalls := Suc (onCompleteCalls s)\<rparr>"

subsection \<open>The scheduling pass\<close>

text \<open>
  \<open>context.createBuffer(1, length, sampleRate)\<close> throws a NotSupportedError for a length
  of zero; the duration of a buffer is its length over the sample rate.
\<close>

definition createAudioBuffer :: "real list \<Rightarrow> real list option" where
  "createAudioBuffer audioData = (if length audioData = 0 then None else Some audioData)"

definition duration :: "real list \<Rightarrow> real" where
  "duration audioBuffer = real (length audioBuffer) / sampleRate"

text \<open>
  One turn of the while loop, after the head \<open>audioData\<close> was shifted off the queue and
  its buffer made: the new node is tracked, gets its handler (the previous end-of-queue
  node loses its own when the queue is now empty), is started at
  \<open>max scheduledTime now\<close>, and the cursor moves to the end of the block.
\<close>

definition scheduleOne :: "real \<Rightarrow> real list \<Rightarrow> streamer \<Rightarrow> streamer" where
  "scheduleOne now audioBuffer s =
     (let source = length (sources s);
          start = max (scheduledTime s) now;
          node = \<lparr>channelData = audioBuffer, startTime = start, onended = NoHandler,
                  stopCalled = False, ended = False\<rparr>
      in if audioQueue s = [] then
           s\<lparr>activeSources := insert source (activeSources s),
             sources := (case endOfQueueAudioSource s of
                           None \<Rightarrow> sources s
                         | Some old \<Rightarrow> (sources s)[old := (sources s ! old)\<lparr>onended := NoHandler\<rparr>])
                        @ [node\<lparr>onended := EndOfQueueHandler\<rparr>],
             endOfQueueAudioSource := Some source,
             scheduledTime := start + duration audioBuffer\<rparr>
         else
           s\<lparr>activeSources := insert source (activeSources s),
             sources := sources s @ [node\<lparr>onended := CleanupHandler\<rparr>],
             scheduledTime := start + duration audioBuffer\<rparr>)"

function scheduleLoop :: "real \<Rightarrow> streamer \<Rightarrow> exn option \<times> streamer" where
  "scheduleLoop now s =
     (case audioQueue s of
        [] \<Rightarrow> (None, s)
      | audioData # rest \<Rightarrow>
          if scheduledTime s < now + SCHEDULE_AHEAD_TIME then
            (case createAudioBuffer audioData of
               None \<Rightarrow> (Some NotSupportedError, s\<lparr>audioQueue := rest\<rparr>)
             | Some audioBuffer \<Rightarrow> scheduleLoop now (scheduleOne now audioBuffer (s\<lparr>audioQueue := rest\<rparr>)))
          else (None, s))"
  by pat_completeness auto
termination
  by (relation "measure (\<lambda>(now, s). length (audioQueue s))")
     (auto simp: scheduleOne_def Let_def)

declare scheduleLoop.simps [simp del]

text \<open>What follows the loop: the loop stops, or one of the two timers is armed.\<close>

definition rearm :: "real \<Rightarrow> streamer \<Rightarrow> streamer" where
  "rearm now s =
     (if length (audioQueue s) = 0 then
        (if isStreamComplete s then
           clearCheckInterval (s\<lparr>isPlaying := False\<rparr>)
         else
           (if \<not> truthy (checkInterval s)
            then s\<lparr>checkInterval := Some (nextTimerId s),
                   intervals := insert (nextTimerId s) (intervals s),
                   nextTimerId := Suc (nextTimerId s)\<rparr>
            else s))
      else
        (let nextCheckTime = (scheduledTime s - now) * 1000
         in s\<lparr>timeouts := timeouts s @ [(nextTimerId s, Reschedule, max 0 (nextCheckTime - 50))],
              nextTimerId := Suc (nextTimerId s)\<rparr>))"

definition scheduleNextBuffer :: "real \<Rightarrow> streamer \<Rightarrow> exn option \<times> streamer" where
  "scheduleNextBuffer now s =
     (case scheduleLoop now s of
        (Some e, s') \<Rightarrow> (Some e, s')
      | (None, s') \<Rightarrow> (None, rearm now s'))"

subsection \<open>Ingest and the life cycle\<close>

text \<open>The part of \<open>addPCM16\<close> before the test of \<open>isPlaying\<close>.\<close>

definition enqueuePCM16 :: "uint8array \<Rightarrow> streamer \<Rightarrow> streamer" where
  "enqueuePCM16 chunk s =
     (case processPCM16Chunk chunk of
        (float32Array, errs) \<Rightarrow>
          s\<lparr>isStreamComplete := False,
            consoleErrors := consoleErrors s + length errs,
            audioQueue := pushBlocks float32Array (audioQueue s)\<rparr>)"

definition addPCM16 :: "real \<Rightarrow> uint8array \<Rightarrow> streamer \<Rightarrow> exn option \<times> streamer" where
  "addPCM16 now chunk s =
     (let s1 = enqueuePCM16 chunk s
      in if \<not> isPlaying s1 then
           scheduleNextBuffer now (s1\<lparr>isPlaying := True, scheduledTime := now + initialBufferTime\<rparr>)
         else (None, s1))"

text \<open>
  \<open>stop()\<close>. \<open>source.stop()\<close> is called on every tracked node, inside a try, so that
  nothing it throws leaves the loop.
\<close>

definition stopSources :: "nat set \<Rightarrow> source_node list \<Rightarrow> source_node list" where
  "stopSources active ns =
     map (\<lambda>(i, n). if i \<in> active then n\<lparr>stopCalled := True\<rparr> else n) (enumerate 0 ns)"

definition stop :: "real \<Rightarrow> streamer \<Rightarrow> streamer" where
  "stop now s =
     clearCheckInterval
       (s\<lparr>isPlaying := False, isStreamComplete := True, audioQueue := [],
          sources := stopSources (activeSources s) (sources s),
          activeSources := {},
          scheduledTime := now\<rparr>)"

text \<open>\<open>resume()\<close>, from the point where the context runs.\<close>

definition resume :: "real \<Rightarrow> streamer \<Rightarrow> streamer" where
  "resume now s =
     s\<lparr>isStreamComplete := False,
       scheduledTime := now + initialBufferTime,
       gainNode := (gainNode s)\<lparr>gain_value := 1\<rparr>\<rparr>"

text \<open>\<open>complete()\<close>.\<close>

definition complete' :: "streamer \<Rightarrow> streamer" where
  "complete' s = invokeOnComplete (s\<lparr>isStreamComplete := True\<rparr>)"

subsection \<open>The ambient pad\<close>

definition freqs :: "real list" where
  "freqs = [146.83, 220.00, 293.66]"

text \<open>
  \<open>startPad(volume)\<close>; \<open>rnd i\<close> is the value \<open>Math.random()\<close> returns for the \<open>i\<close>-th
  oscillator.
\<close>

definition startPad :: "real \<Rightarrow> real \<Rightarrow> (nat \<Rightarrow> real) \<Rightarrow> streamer \<Rightarrow> streamer" where
  "startPad now volume rnd s =
     (if padGain s \<noteq> None then s
      else
        s\<lparr>padGain := Some \<lparr>gain_value = 0, gain_ramps = [(volume, now + 2)], gain_connected = True\<rparr>,
          padFilter := Some \<lparr>filter_frequency = 400, filter_Q = 1, filter_connected = True\<rparr>,
          padOscillators := padOscillators s @
            map (\<lambda>i. \<lparr>osc_kind = Triangle, frequency = freqs ! i,
                       detune = rnd i * 10 - 5, osc_running = True\<rparr>) [0..<length freqs]\<rparr>)"

definition setPadVolume :: "real \<Rightarrow> real \<Rightarrow> streamer \<Rightarrow> streamer" where
  "setPadVolume now volume s =
     (case padGain s of
        None \<Rightarrow> s
      | Some g \<Rightarrow> s\<lparr>padGain := Some (g\<lparr>gain_ramps := gain_ramps g @ [(volume, now + 0.5)]\<rparr>)\<rparr>)"

definition stopPad :: "real \<Rightarrow> streamer \<Rightarrow> streamer" where
  "stopPad now s =
     (case padGain s of
        None \<Rightarrow> s
      | Some g \<Rightarrow>
          s\<lparr>padGain := Some (g\<lparr>gain_ramps := gain_ramps g @ [(0, now + 2)]\<rparr>),
            timeouts := timeouts s @ [(nextTimerId s, PadTeardown, 2000)],
            nextTimerId := Suc (nextTimerId s)\<rparr>)"

definition padTeardown :: "streamer \<Rightarrow> streamer" where
  "padTeardown s = s\<lparr>padOscillators := [], padGain := None, padFilter := None\<rparr>"

subsection \<open>Callbacks of the platform\<close>

text \<open>The callback of the recheck interval.\<close>

definition intervalCallback :: "real \<Rightarrow> streamer \<Rightarrow> exn option \<times> streamer" where
  "intervalCallback now s =
     (if length (audioQueue s) > 0 then scheduleNextBuffer now s else (None, s))"

text \<open>The \<open>onended\<close> handlers, for the node \<open>source\<close> they were made for.\<close>

definition runHandler :: "handler \<Rightarrow> nat \<Rightarrow> streamer \<Rightarrow> streamer" where
  "runHandler h source s =
     (case h of
        NoHandler \<Rightarrow> s
      | CleanupHandler \<Rightarrow> s\<lparr>activeSources := activeSources s - {source}\<rparr>
      | EndOfQueueHandler \<Rightarrow>
          (let s1 = s\<lparr>activeSources := activeSources s - {source}\<rparr>
           in if length (audioQueue s1) = 0 \<and> endOfQueueAudioSource s1 = Some source
              then invokeOnComplete (s1\<lparr>endOfQueueAudioSource := None\<rparr>)
              else s1))"

text \<open>
  The platform dispatches \<open>ended\<close> to a node once, when it has played to its end or was
  stopped, and runs the handler the node holds at that moment.
\<close>

definition dispatchEnded :: "nat \<Rightarrow> streamer \<Rightarrow> streamer" where
  "dispatchEnded source s =
     (if source < length (sources s) \<and> \<not> ended (sources s ! source) then
        runHandler (onended (sources s ! source)) source
          (s\<lparr>sources := (sources s)[source := (sources s ! source)\<lparr>ended := True\<rparr>]\<rparr>)
      else s)"

definition fireInterval :: "nat \<Rightarrow> real \<Rightarrow> streamer \<Rightarrow> exn option \<times> streamer" where
  "fireInterval t now s = (if t \<in> intervals s then intervalCallback now s else (None, s))"

definition fireTimeout :: "nat \<Rightarrow> real \<Rightarrow> streamer \<Rightarrow> exn option \<times> streamer" where
  "fireTimeout t now s =
     (case map_of (timeouts s) t of
        None \<Rightarrow> (None, s)
      | Some (cb, delay) \<Rightarrow>
          (let s1 = s\<lparr>timeouts := filter (\<lambda>(t', cb'). t' \<noteq> t) (timeouts s)\<rparr>
           in case cb of
                Reschedule \<Rightarrow> scheduleNextBuffer now s1
              | PadTeardown \<Rightarrow> (None, padTeardown s1)))"

subsection \<open>Runs\<close>

text \<open>
  Whatever can happen to a streamer: a call of one of its methods, or a callback of the
  platform (a timer firing, an \<open>ended\<close> event).
\<close>

datatype event =
    AddPCM16 real uint8array
  | Stop real
  | Resume real
  | Complete
  | StartPad real real "nat \<Rightarrow> real"
  | SetPadVolume real real
  | StopPad real
  | IntervalFires nat real
  | TimeoutFires nat real
  | Ended nat

fun exec :: "event \<Rightarrow> streamer \<Rightarrow> exn option \<times> streamer" where
  "exec (AddPCM16 now chunk) s = addPCM16 now chunk s"
| "exec (Stop now) s = (None, stop now s)"
| "exec (Resume now) s = (None, resume now s)"
| "exec Complete s = (None, complete' s)"
| "exec (StartPad now volume rnd) s = (None, startPad now volume rnd s)"
| "exec (SetPadVolume now volume) s = (None, setPadVolume now volume s)"
| "exec (StopPad now) s = (None, stopPad now s)"
| "exec (IntervalFires t now) s = fireInterval t now s"
| "exec (TimeoutFires t now) s = fireTimeout t now s"
| "exec (Ended source) s = (None, dispatchEnded source s)"

definition step :: "event \<Rightarrow> streamer \<Rightarrow> streamer" where
  "step e s = snd (exec e s)"

fun run :: "event list \<Rightarrow> streamer \<Rightarrow> streamer" where
  "run [] s = s"
| "run (e # es) s = run es (step e s)"

subsection \<open>Notions used to state the properties\<close>

text \<open>
  The little-endian conversion as the specification words it: the bytes taken two by
  two, each pair a signed 16-bit integer, divided by 32768. A last lone byte is no sample.
\<close>

fun le_int16_samples :: "byte list \<Rightarrow> real list" where
  "le_int16_samples (lo # hi # rest) = real_of_int (int16_le lo hi) / 32768 # le_int16_samples rest"
| "le_int16_samples [lo] = []"
| "le_int16_samples [] = []"

text \<open>The blocks one ingest pushes: the loop and the remainder, on an empty queue.\<close>

definition blocks :: "real list \<Rightarrow> real list list" where
  "blocks samples = pushBlocks samples []"

text \<open>
  Every block the streamer has taken in and not discarded, in the order of playback:
  the buffers of the nodes in the order they were made, then the queue.
\<close>

definition blocks_of :: "streamer \<Rightarrow> real list list" where
  "blocks_of s = map channelData (sources s) @ audioQueue s"

text \<open>The chunks a run ingests, in order.\<close>

fun chunks_of :: "event list \<Rightarrow> uint8array list" where
  "chunks_of [] = []"
| "chunks_of (AddPCM16 now chunk # es) = chunk # chunks_of es"
| "chunks_of (e # es) = chunks_of es"

text \<open>A view that starts at the beginning of its buffer and lies inside it.\<close>

definition from_start :: "uint8array \<Rightarrow> bool" where
  "from_start chunk \<longleftrightarrow> byteOffset chunk = 0 \<and> wf_view chunk"

fun is_stop :: "event \<Rightarrow> bool" where
  "is_stop (Stop now) = True"
| "is_stop e = False"

text \<open>
  The events that reset the cursor \<open>scheduledTime\<close>: \<open>stop()\<close>, \<open>resume()\<close>, and an ingest
  that finds the loop not running.
\<close>

fun resets :: "event \<Rightarrow> streamer \<Rightarrow> bool" where
  "resets (Stop now) s = True"
| "resets (Resume now) s = True"
| "resets (AddPCM16 now chunk) s = (\<not> isPlaying s)"
| "resets e s = False"

fun no_resets :: "event list \<Rightarrow> streamer \<Rightarrow> bool" where
  "no_resets [] s = True"
| "no_resets (e # es) s = (\<not> resets e s \<and> no_resets es (step e s))"

text \<open>
  The span of a node on the clock, from the time given to \<open>start\<close> to that time plus
  the duration of its buffer; and spans that follow one another without overlap.
\<close>

definition node_span :: "source_node \<Rightarrow> real \<times> real" where
  "node_span n = (startTime n, startTime n + duration (channelData n))"

fun back_to_back :: "(real \<times> real) list \<Rightarrow> bool" where
  "back_to_back [] = True"
| "back_to_back [a] = True"
| "back_to_back (a # b # r) = (snd a \<le> fst b \<and> back_to_back (b # r))"

text \<open>
  The nodes made from the \<open>k\<close>-th on follow one another without overlap and all end
  by the cursor.
\<close>

definition chain :: "nat \<Rightarrow> streamer \<Rightarrow> bool" where
  "chain k s \<longleftrightarrow>
     back_to_back (drop k (map node_span (sources s))) \<and>
     (\<forall>p \<in> set (drop k (map node_span (sources s))). snd p \<le> scheduledTime s)"

text \<open>The samples and the blocks an event brings in.\<close>

fun decoded :: "event \<Rightarrow> real list" where
  "decoded (AddPCM16 now chunk) = fst (processPCM16Chunk chunk)"
| "decoded e = []"

fun ingested :: "event \<Rightarrow> real list list" where
  "ingested (AddPCM16 now chunk) = blocks (fst (processPCM16Chunk chunk))"
| "ingested e = []"

text \<open>
  What every state of a run from the constructor satisfies: timer identifiers are
  positive and fresh, the only interval alive is the one \<open>checkInterval\<close> holds, no queued
  block is empty, and the tracked nodes and the end-of-queue node exist.
\<close>

definition streamer_inv :: "streamer \<Rightarrow> bool" where
  "streamer_inv s \<longleftrightarrow>
     0 < nextTimerId s \<and>
     (case checkInterval s of None \<Rightarrow> intervals s = {} | Some t \<Rightarrow> 0 < t \<and> intervals s = {t}) \<and>
     [] \<notin> set (audioQueue s) \<and>
     (\<forall>u \<in> activeSources s. u < length (sources s)) \<and>
     (case endOfQueueAudioSource s of None \<Rightarrow> True | Some m \<Rightarrow> m < length (sources s)) \<and>
     gain_connected (gainNode s)"



section \<open>The decoder\<close>

lemma typed_set_length: "length (typed_set arr i v) = length arr"
  by (simp add: typed_set_def)

lemma processLoop_length:
  "length (fst (processLoop buf len i arr errs)) = length arr"
proof (induction buf len i arr errs rule: processLoop.induct)
  case (1 buf len i arr errs)
  show ?case
    by (subst processLoop.simps) (simp add: 1 typed_set_length split: option.split)
qed

lemma processLoop_nth:
  "j < length arr \<Longrightarrow>
   fst (processLoop buf len i arr errs) ! j =
     (if i \<le> j \<and> 2 * j < len
      then (case getInt16 buf (j * 2) of Some v \<Rightarrow> real_of_int v / 32768 | None \<Rightarrow> arr ! j)
      else arr ! j)"
proof (induction buf len i arr errs rule: processLoop.induct)
  case (1 buf len i arr errs)
  show ?case
  proof (cases "2 * i < len")
    case False
    then show ?thesis
      by (subst processLoop.simps) auto
  next
    case True
    show ?thesis
    proof (cases "getInt16 buf (i * 2)")
      case None
      with True 1(1)[OF True None] 1(3) show ?thesis
        by (subst processLoop.simps) (auto simp: le_Suc_eq Suc_le_eq split: option.splits)
    next
      case (Some v)
      have "j < length (typed_set arr i (real_of_int v / 32768))"
        using 1(3) by (simp add: typed_set_length)
      with True 1(2)[OF True Some] 1(3) Some show ?thesis
        by (subst processLoop.simps)
           (auto simp: typed_set_def nat_less_le Suc_le_eq split: option.splits)
    qed
  qed
qed

lemma processLoop_errs:
  "snd (processLoop buf len i arr errs) =
     errs @ filter (\<lambda>j. getInt16 buf (j * 2) = None) [i..<(len + 1) div 2]"
proof (induction buf len i arr errs rule: processLoop.induct)
  case (1 buf len i arr errs)
  show ?case
  proof (cases "2 * i < len")
    case False
    then have "(len + 1) div 2 \<le> i" by arith
    with False show ?thesis
      by (subst processLoop.simps) simp
  next
    case True
    then have lt: "i < (len + 1) div 2" by arith
    have eq: "[i..<(len + 1) div 2] = i # [Suc i..<(len + 1) div 2]"
      using lt by (rule upt_conv_Cons)
    show ?thesis
      using True 1 eq by (subst processLoop.simps) (auto split: option.splits)
  qed
qed

lemma le_int16_samples_length: "length (le_int16_samples bs) = length bs div 2"
  by (induction bs rule: le_int16_samples.induct) simp_all

lemma le_int16_samples_nth:
  "i < length bs div 2 \<Longrightarrow>
   le_int16_samples bs ! i = real_of_int (int16_le (bs ! (2 * i)) (bs ! (2 * i + 1))) / 32768"
proof (induction bs arbitrary: i rule: le_int16_samples.induct)
  case (1 lo hi rest)
  then show ?case by (cases i) simp_all
qed simp_all

lemma le_int16_samples_append:
  "even (length xs) \<Longrightarrow> le_int16_samples (xs @ ys) = le_int16_samples xs @ le_int16_samples ys"
  by (induction xs rule: le_int16_samples.induct) simp_all

lemma le_int16_samples_concat:
  "\<forall>bs \<in> set bss. even (length bs) \<Longrightarrow>
   le_int16_samples (concat bss) = concat (map le_int16_samples bss)"
  by (induction bss) (simp_all add: le_int16_samples_append)

lemma le_int16_samples_butlast:
  "odd (length bs) \<Longrightarrow> le_int16_samples bs = le_int16_samples (butlast bs)"
  by (induction bs rule: le_int16_samples.induct) auto

lemma decode_from_start:
  assumes "from_start chunk"
  shows "fst (processPCM16Chunk chunk) = le_int16_samples (bytes_of chunk)"
proof (rule nth_equalityI)
  have len: "length (bytes_of chunk) = length_u8 chunk"
    using assms by (simp add: bytes_of_def from_start_def wf_view_def)
  show "length (fst (processPCM16Chunk chunk)) = length (le_int16_samples (bytes_of chunk))"
    by (simp add: processPCM16Chunk_def processLoop_length le_int16_samples_length len)
  fix i assume "i < length (fst (processPCM16Chunk chunk))"
  then have i: "i < length_u8 chunk div 2"
    by (simp add: processPCM16Chunk_def processLoop_length)
  then have i2: "2 * i + 2 \<le> length_u8 chunk" by arith
  have le: "length_u8 chunk \<le> length (buffer chunk)" and off: "byteOffset chunk = 0"
    using assms by (simp_all add: from_start_def wf_view_def)
  have get: "getInt16 (buffer chunk) (i * 2)
               = Some (int16_le (buffer chunk ! (2 * i)) (buffer chunk ! (2 * i + 1)))"
    using i2 le by (simp add: getInt16_def mult.commute)
  have b0: "bytes_of chunk ! (2 * i) = buffer chunk ! (2 * i)"
    and b1: "bytes_of chunk ! (2 * i + 1) = buffer chunk ! (2 * i + 1)"
    using i2 off by (simp_all add: bytes_of_def)
  have "fst (processPCM16Chunk chunk) ! i
          = real_of_int (int16_le (buffer chunk ! (2 * i)) (buffer chunk ! (2 * i + 1))) / 32768"
    using i i2 get by (simp add: processPCM16Chunk_def processLoop_nth)
  also have "\<dots> = le_int16_samples (bytes_of chunk) ! i"
    using i b0 b1 by (simp add: le_int16_samples_nth len)
  finally show "fst (processPCM16Chunk chunk) ! i = le_int16_samples (bytes_of chunk) ! i" .
qed

lemma decode_no_errors:
  assumes "from_start chunk" "even (length_u8 chunk)"
  shows "snd (processPCM16Chunk chunk) = []"
proof -
  have le: "length_u8 chunk \<le> length (buffer chunk)"
    using assms by (simp add: from_start_def wf_view_def)
  have "getInt16 (buffer chunk) (j * 2) \<noteq> None" if "j < (length_u8 chunk + 1) div 2" for j
  proof -
    from assms(2) that have "j * 2 + 2 \<le> length_u8 chunk" by (elim evenE) simp
    with le show ?thesis by (simp add: getInt16_def)
  qed
  then show ?thesis
    by (simp add: processPCM16Chunk_def processLoop_errs filter_empty_conv)
qed

section \<open>The blocks of one ingest\<close>

lemma splitLoop_closed:
  "splitLoop xs q =
     (drop (length xs div bufferSize * bufferSize) xs,
      q @ map (\<lambda>i. take bufferSize (drop (i * bufferSize) xs)) [0..<length xs div bufferSize])"
proof (induction xs q rule: splitLoop.induct)
  case (1 xs q)
  have B: "0 < bufferSize" by (simp add: bufferSize_def)
  show ?case
  proof (cases "bufferSize \<le> length xs")
    case False
    then have "length xs div bufferSize = 0" by simp
    with False show ?thesis by (subst splitLoop.simps) simp
  next
    case True
    define n where "n = (length xs - bufferSize) div bufferSize"
    have n: "length xs div bufferSize = Suc n"
      using True B unfolding n_def by (simp add: le_div_geq)
    have "splitLoop xs q = splitLoop (drop bufferSize xs) (q @ [take bufferSize xs])"
      using True by (subst splitLoop.simps) simp
    also have "\<dots> = (drop (n * bufferSize) (drop bufferSize xs),
        (q @ [take bufferSize xs]) @
        map (\<lambda>i. take bufferSize (drop (i * bufferSize) (drop bufferSize xs))) [0..<n])"
      using 1[OF True] by (simp add: n_def)
    also have "drop (n * bufferSize) (drop bufferSize xs) = drop (Suc n * bufferSize) xs"
      by (simp add: add.commute)
    also have "map (\<lambda>i. take bufferSize (drop (i * bufferSize) (drop bufferSize xs))) [0..<n]
             = map (\<lambda>i. take bufferSize (drop (i * bufferSize) xs)) [Suc 0..<Suc n]"
      by (simp add: map_Suc_upt[symmetric] add.commute del: upt_Suc)
    finally show ?thesis
      by (simp add: n upt_conv_Cons del: upt_Suc)
  qed
qed

lemma bufferSize_pos: "0 < bufferSize"
  by (simp add: bufferSize_def)

lemma splitLoop_concat:
  "concat (snd (splitLoop xs q)) @ fst (splitLoop xs q) = concat q @ xs"
proof (induction xs q rule: splitLoop.induct)
  case (1 xs q)
  show ?case
  proof (cases "bufferSize \<le> length xs")
    case True
    with 1[OF True] show ?thesis by (subst (1 2) splitLoop.simps) simp
  next
    case False
    then show ?thesis by (subst (1 2) splitLoop.simps) simp
  qed
qed

lemma pushBlocks_closed:
  "pushBlocks xs q =
     q @ map (\<lambda>i. take bufferSize (drop (i * bufferSize) xs)) [0..<length xs div bufferSize]
       @ (if length xs mod bufferSize = 0 then []
          else [drop (length xs div bufferSize * bufferSize) xs])"
proof -
  have "length xs - length xs div bufferSize * bufferSize = length xs mod bufferSize"
    by (simp add: minus_div_mult_eq_mod)
  moreover have "length xs div bufferSize * bufferSize \<le> length xs"
    by simp
  ultimately have "length xs \<le> length xs div bufferSize * bufferSize
                     \<longleftrightarrow> length xs mod bufferSize = 0"
    by arith
  then show ?thesis
    by (simp add: pushBlocks_def splitLoop_closed)
qed

lemma pushBlocks_blocks: "pushBlocks xs q = q @ blocks xs"
  by (simp add: blocks_def pushBlocks_closed)

lemma blocks_closed:
  "blocks xs =
     map (\<lambda>i. take bufferSize (drop (i * bufferSize) xs)) [0..<length xs div bufferSize]
       @ (if length xs mod bufferSize = 0 then []
          else [drop (length xs div bufferSize * bufferSize) xs])"
  by (simp add: blocks_def pushBlocks_closed)

lemma concat_blocks: "concat (blocks xs) = xs"
proof -
  obtain r q' where sl: "splitLoop xs [] = (r, q')" by (cases "splitLoop xs []")
  with splitLoop_concat[of xs "[]"] have "concat q' @ r = xs" by simp
  with sl show ?thesis
    by (auto simp: blocks_def pushBlocks_def)
qed

lemma ceil_div_nat:
  fixes B :: nat
  assumes "0 < B" "r < B"
  shows "(k * B + r + B - 1) div B = k + (if r = 0 then 0 else 1)"
proof (cases "r = 0")
  case True
  have "(k * B + B - 1) div B = k"
    using assms(1) by (intro div_nat_eqI) (auto simp: algebra_simps)
  with True show ?thesis by simp
next
  case False
  have "(k * B + r + B - 1) div B = Suc k"
    using assms False by (intro div_nat_eqI) (auto simp: algebra_simps)
  with False show ?thesis by simp
qed

lemma length_blocks:
  "length (blocks xs) = (length xs + bufferSize - 1) div bufferSize"
proof -
  have "(length xs div bufferSize * bufferSize + length xs mod bufferSize + bufferSize - 1)
          div bufferSize
        = length xs div bufferSize + (if length xs mod bufferSize = 0 then 0 else 1)"
    by (rule ceil_div_nat) (simp_all add: bufferSize_pos)
  then have "(length xs + bufferSize - 1) div bufferSize
        = length xs div bufferSize + (if length xs mod bufferSize = 0 then 0 else 1)"
    by (simp only: div_mult_mod_eq)
  then show ?thesis
    by (simp add: blocks_closed)
qed

lemma nth_blocks_length:
  assumes "i < length (blocks xs)"
  shows "length (blocks xs ! i) =
     (if Suc i < length (blocks xs) then bufferSize
      else if length xs mod bufferSize = 0 then bufferSize else length xs mod bufferSize)"
proof -
  define n where "n = length xs div bufferSize"
  have full: "length (take bufferSize (drop (j * bufferSize) xs)) = bufferSize" if "j < n" for j
  proof -
    from that have "Suc j \<le> n" by simp
    then have "Suc j * bufferSize \<le> n * bufferSize" by (rule mult_le_mono1)
    also have "\<dots> \<le> length xs" by (simp add: n_def)
    finally show ?thesis by simp
  qed
  show ?thesis
  proof (cases "length xs mod bufferSize = 0")
    case True
    then have b: "blocks xs = map (\<lambda>i. take bufferSize (drop (i * bufferSize) xs)) [0..<n]"
      by (simp add: blocks_closed n_def)
    with assms have "i < n" by simp
    with full[of i] show ?thesis by (simp add: b True)
  next
    case False
    then have b: "blocks xs = map (\<lambda>i. take bufferSize (drop (i * bufferSize) xs)) [0..<n]
                    @ [drop (n * bufferSize) xs]"
      by (simp add: blocks_closed n_def)
    have last: "length xs - n * bufferSize = length xs mod bufferSize"
      by (simp add: n_def minus_div_mult_eq_mod)
    from assms b have "i < n \<or> i = n" by auto
    then show ?thesis
    proof
      assume "i < n"
      with full[of i] show ?thesis by (simp add: b nth_append)
    next
      assume "i = n"
      with False last show ?thesis by (simp add: b nth_append)
    qed
  qed
qed

lemma blocks_nonempty: "[] \<notin> set (blocks xs)"
proof
  assume "[] \<in> set (blocks xs)"
  then obtain i where i: "i < length (blocks xs)" and e: "blocks xs ! i = []"
    by (auto simp: in_set_conv_nth)
  from nth_blocks_length[OF i] e show False
    using bufferSize_pos by (auto split: if_splits)
qed

lemma blocks_Nil: "blocks [] = []"
  by (simp add: blocks_closed)

section \<open>The scheduling pass\<close>

lemma map_update_same:
  assumes "\<And>x. f (g x) = f x"
  shows "map f (xs[i := g (xs ! i)]) = map f xs"
proof (cases "i < length xs")
  case True
  then show ?thesis by (simp add: map_update assms list_update_same_conv)
next
  case False
  then show ?thesis by (simp add: list_update_beyond)
qed

lemma scheduleOne_frame [simp]:
  "audioQueue (scheduleOne now b s) = audioQueue s"
  "isPlaying (scheduleOne now b s) = isPlaying s"
  "isStreamComplete (scheduleOne now b s) = isStreamComplete s"
  "checkInterval (scheduleOne now b s) = checkInterval s"
  "intervals (scheduleOne now b s) = intervals s"
  "timeouts (scheduleOne now b s) = timeouts s"
  "nextTimerId (scheduleOne now b s) = nextTimerId s"
  "consoleErrors (scheduleOne now b s) = consoleErrors s"
  "onCompleteCalls (scheduleOne now b s) = onCompleteCalls s"
  "gainNode (scheduleOne now b s) = gainNode s"
  "padGain (scheduleOne now b s) = padGain s"
  "padOscillators (scheduleOne now b s) = padOscillators s"
  "padFilter (scheduleOne now b s) = padFilter s"
  by (simp_all add: scheduleOne_def Let_def)

lemma scheduleOne_effect [simp]:
  "scheduledTime (scheduleOne now b s) = max (scheduledTime s) now + duration b"
  "activeSources (scheduleOne now b s) = insert (length (sources s)) (activeSources s)"
  "length (sources (scheduleOne now b s)) = Suc (length (sources s))"
  "endOfQueueAudioSource (scheduleOne now b s) =
     (if audioQueue s = [] then Some (length (sources s)) else endOfQueueAudioSource s)"
  by (simp_all add: scheduleOne_def Let_def split: option.split)

lemma scheduleOne_channelData [simp]:
  "map channelData (sources (scheduleOne now b s)) = map channelData (sources s) @ [b]"
  by (simp add: scheduleOne_def Let_def map_update_same split: option.split)

lemma scheduleOne_span [simp]:
  "map node_span (sources (scheduleOne now b s)) =
     map node_span (sources s) @ [(max (scheduledTime s) now, max (scheduledTime s) now + duration b)]"
  by (simp add: scheduleOne_def Let_def map_update_same node_span_def split: option.split)

lemma scheduleOne_last:
  "startTime (last (sources (scheduleOne now b s))) = max (scheduledTime s) now"
  "channelData (last (sources (scheduleOne now b s))) = b"
  by (simp_all add: scheduleOne_def Let_def split: option.split)

text \<open>What one turn of the loop keeps, a whole pass keeps.\<close>

lemma scheduleLoop_preserves:
  assumes step: "\<And>s d rest. P s \<Longrightarrow> audioQueue s = d # rest \<Longrightarrow> d \<noteq> [] \<Longrightarrow>
                   scheduledTime s < now + SCHEDULE_AHEAD_TIME \<Longrightarrow>
                   P (scheduleOne now d (s\<lparr>audioQueue := rest\<rparr>))"
    and throw: "\<And>s rest. P s \<Longrightarrow> audioQueue s = [] # rest \<Longrightarrow> P (s\<lparr>audioQueue := rest\<rparr>)"
    and init: "P s"
  shows "P (snd (scheduleLoop now s))"
proof -
  have "now' = now \<Longrightarrow> P s \<Longrightarrow> P (snd (scheduleLoop now' s))" for now'
  proof (induction now' s rule: scheduleLoop.induct)
    case (1 now' s)
    note now = \<open>now' = now\<close> and P = \<open>P s\<close>
    show ?case
    proof (cases "audioQueue s")
      case Nil
      with P show ?thesis by (subst scheduleLoop.simps) simp
    next
      case (Cons d rest)
      show ?thesis
      proof (cases "scheduledTime s < now' + SCHEDULE_AHEAD_TIME")
        case False
        with Cons P show ?thesis by (subst scheduleLoop.simps) simp
      next
        case True
        show ?thesis
        proof (cases "d = []")
          case True
          with Cons \<open>scheduledTime s < now' + SCHEDULE_AHEAD_TIME\<close> throw[OF P] show ?thesis
            by (subst scheduleLoop.simps) (simp add: createAudioBuffer_def)
        next
          case False
          then have cab: "createAudioBuffer d = Some d" by (simp add: createAudioBuffer_def)
          have "P (scheduleOne now' d (s\<lparr>audioQueue := rest\<rparr>))"
            using step[OF P Cons False] True now by simp
          from "1.IH"[OF Cons True cab now this] Cons True cab show ?thesis
            by (subst scheduleLoop.simps) simp
        qed
      qed
    qed
  qed
  with init show ?thesis by simp
qed

lemma scheduleLoop_no_throw:
  "[] \<notin> set (audioQueue s) \<Longrightarrow> fst (scheduleLoop now s) = None"
proof (induction now s rule: scheduleLoop.induct)
  case (1 now s)
  show ?case
  proof (cases "audioQueue s")
    case Nil
    then show ?thesis by (subst scheduleLoop.simps) simp
  next
    case (Cons d rest)
    with 1(2) have d: "createAudioBuffer d = Some d" and rest: "[] \<notin> set rest"
      by (auto simp: createAudioBuffer_def)
    show ?thesis
    proof (cases "scheduledTime s < now + SCHEDULE_AHEAD_TIME")
      case False
      with Cons show ?thesis by (subst scheduleLoop.simps) simp
    next
      case True
      from 1(1)[OF Cons True d] rest Cons True d show ?thesis
        by (subst scheduleLoop.simps) simp
    qed
  qed
qed

lemma scheduleLoop_frame:
  "isPlaying (snd (scheduleLoop now s)) = isPlaying s \<and>
   isStreamComplete (snd (scheduleLoop now s)) = isStreamComplete s \<and>
   checkInterval (snd (scheduleLoop now s)) = checkInterval s \<and>
   intervals (snd (scheduleLoop now s)) = intervals s \<and>
   timeouts (snd (scheduleLoop now s)) = timeouts s \<and>
   nextTimerId (snd (scheduleLoop now s)) = nextTimerId s \<and>
   consoleErrors (snd (scheduleLoop now s)) = consoleErrors s \<and>
   onCompleteCalls (snd (scheduleLoop now s)) = onCompleteCalls s \<and>
   gainNode (snd (scheduleLoop now s)) = gainNode s \<and>
   padGain (snd (scheduleLoop now s)) = padGain s \<and>
   padOscillators (snd (scheduleLoop now s)) = padOscillators s \<and>
   padFilter (snd (scheduleLoop now s)) = padFilter s"
  by (rule scheduleLoop_preserves) simp_all

lemma scheduleLoop_blocks_of:
  assumes "[] \<notin> set (audioQueue s)"
  shows "blocks_of (snd (scheduleLoop now s)) = blocks_of s \<and>
         [] \<notin> set (audioQueue (snd (scheduleLoop now s)))"
  by (rule scheduleLoop_preserves) (use assms in \<open>auto simp: blocks_of_def\<close>)

lemma clearCheckInterval_frame [simp]:
  "audioQueue (clearCheckInterval s) = audioQueue s"
  "isPlaying (clearCheckInterval s) = isPlaying s"
  "isStreamComplete (clearCheckInterval s) = isStreamComplete s"
  "scheduledTime (clearCheckInterval s) = scheduledTime s"
  "sources (clearCheckInterval s) = sources s"
  "activeSources (clearCheckInterval s) = activeSources s"
  "endOfQueueAudioSource (clearCheckInterval s) = endOfQueueAudioSource s"
  "timeouts (clearCheckInterval s) = timeouts s"
  "nextTimerId (clearCheckInterval s) = nextTimerId s"
  "consoleErrors (clearCheckInterval s) = consoleErrors s"
  "onCompleteCalls (clearCheckInterval s) = onCompleteCalls s"
  "gainNode (clearCheckInterval s) = gainNode s"
  "padGain (clearCheckInterval s) = padGain s"
  "padOscillators (clearCheckInterval s) = padOscillators s"
  "padFilter (clearCheckInterval s) = padFilter s"
  by (simp_all add: clearCheckInterval_def clearInterval_def split: option.split)

lemma rearm_frame [simp]:
  "audioQueue (rearm now s) = audioQueue s"
  "isStreamComplete (rearm now s) = isStreamComplete s"
  "scheduledTime (rearm now s) = scheduledTime s"
  "sources (rearm now s) = sources s"
  "activeSources (rearm now s) = activeSources s"
  "endOfQueueAudioSource (rearm now s) = endOfQueueAudioSource s"
  "consoleErrors (rearm now s) = consoleErrors s"
  "onCompleteCalls (rearm now s) = onCompleteCalls s"
  "gainNode (rearm now s) = gainNode s"
  "padGain (rearm now s) = padGain s"
  "padOscillators (rearm now s) = padOscillators s"
  "padFilter (rearm now s) = padFilter s"
  by (simp_all add: rearm_def Let_def)

lemma rearm_isPlaying:
  "isPlaying (rearm now s) = (isPlaying s \<and> \<not> (audioQueue s = [] \<and> isStreamComplete s))"
  by (simp add: rearm_def Let_def)

lemma scheduleNextBuffer_snd:
  "snd (scheduleNextBuffer now s) =
     (if fst (scheduleLoop now s) = None then rearm now (snd (scheduleLoop now s))
      else snd (scheduleLoop now s))"
  by (cases "scheduleLoop now s") (auto simp: scheduleNextBuffer_def split: option.split)

lemma scheduleNextBuffer_fst:
  "fst (scheduleNextBuffer now s) = fst (scheduleLoop now s)"
  by (cases "scheduleLoop now s") (auto simp: scheduleNextBuffer_def split: option.split)

lemma scheduleNextBuffer_frame:
  "isStreamComplete (snd (scheduleNextBuffer now s)) = isStreamComplete s \<and>
   consoleErrors (snd (scheduleNextBuffer now s)) = consoleErrors s \<and>
   onCompleteCalls (snd (scheduleNextBuffer now s)) = onCompleteCalls s \<and>
   gainNode (snd (scheduleNextBuffer now s)) = gainNode s \<and>
   padGain (snd (scheduleNextBuffer now s)) = padGain s \<and>
   padOscillators (snd (scheduleNextBuffer now s)) = padOscillators s \<and>
   padFilter (snd (scheduleNextBuffer now s)) = padFilter s"
  using scheduleLoop_frame[of now s] by (simp add: scheduleNextBuffer_snd)

lemma scheduleNextBuffer_no_throw:
  "[] \<notin> set (audioQueue s) \<Longrightarrow> fst (scheduleNextBuffer now s) = None"
  by (simp add: scheduleNextBuffer_fst scheduleLoop_no_throw)

lemma scheduleNextBuffer_blocks_of:
  assumes "[] \<notin> set (audioQueue s)"
  shows "blocks_of (snd (scheduleNextBuffer now s)) = blocks_of s"
    and "[] \<notin> set (audioQueue (snd (scheduleNextBuffer now s)))"
  using scheduleLoop_blocks_of[OF assms, of now]
  by (simp_all add: scheduleNextBuffer_snd blocks_of_def)

lemma scheduleLoop_samples:
  "concat (blocks_of (snd (scheduleLoop now s))) = concat (blocks_of s)"
  by (rule scheduleLoop_preserves) (auto simp: blocks_of_def)

lemma scheduleNextBuffer_samples:
  "concat (blocks_of (snd (scheduleNextBuffer now s))) = concat (blocks_of s)"
  using scheduleLoop_samples[of now s] by (simp add: scheduleNextBuffer_snd blocks_of_def)

lemma scheduleNextBuffer_isPlaying:
  assumes "isPlaying s" "\<not> isStreamComplete s"
  shows "isPlaying (snd (scheduleNextBuffer now s))"
  using scheduleLoop_frame[of now s] assms
  by (simp add: scheduleNextBuffer_snd rearm_isPlaying)

subsection \<open>The invariant\<close>

lemma inv_new_streamer: "streamer_inv new_streamer"
  by (simp add: streamer_inv_def new_streamer_def)

lemma inv_scheduleLoop: "streamer_inv s \<Longrightarrow> streamer_inv (snd (scheduleLoop now s))"
  by (rule scheduleLoop_preserves)
     (auto simp: streamer_inv_def less_Suc_eq split: option.splits)

lemma inv_rearm: "streamer_inv s \<Longrightarrow> streamer_inv (rearm now s)"
  by (auto simp: streamer_inv_def rearm_def Let_def clearCheckInterval_def clearInterval_def truthy_def
           split: option.splits)

lemma inv_scheduleNextBuffer: "streamer_inv s \<Longrightarrow> streamer_inv (snd (scheduleNextBuffer now s))"
  by (simp add: scheduleNextBuffer_snd inv_scheduleLoop inv_rearm)

lemma enqueuePCM16_simps [simp]:
  "audioQueue (enqueuePCM16 chunk s) = audioQueue s @ blocks (fst (processPCM16Chunk chunk))"
  "isStreamComplete (enqueuePCM16 chunk s) = False"
  "consoleErrors (enqueuePCM16 chunk s) = consoleErrors s + length (snd (processPCM16Chunk chunk))"
  "isPlaying (enqueuePCM16 chunk s) = isPlaying s"
  "scheduledTime (enqueuePCM16 chunk s) = scheduledTime s"
  "sources (enqueuePCM16 chunk s) = sources s"
  "activeSources (enqueuePCM16 chunk s) = activeSources s"
  "endOfQueueAudioSource (enqueuePCM16 chunk s) = endOfQueueAudioSource s"
  "checkInterval (enqueuePCM16 chunk s) = checkInterval s"
  "intervals (enqueuePCM16 chunk s) = intervals s"
  "timeouts (enqueuePCM16 chunk s) = timeouts s"
  "nextTimerId (enqueuePCM16 chunk s) = nextTimerId s"
  "onCompleteCalls (enqueuePCM16 chunk s) = onCompleteCalls s"
  "gainNode (enqueuePCM16 chunk s) = gainNode s"
  "padGain (enqueuePCM16 chunk s) = padGain s"
  "padOscillators (enqueuePCM16 chunk s) = padOscillators s"
  "padFilter (enqueuePCM16 chunk s) = padFilter s"
  by (simp_all add: enqueuePCM16_def pushBlocks_blocks split: prod.split)

lemma inv_enqueuePCM16: "streamer_inv s \<Longrightarrow> streamer_inv (enqueuePCM16 chunk s)"
  by (auto simp: streamer_inv_def blocks_nonempty split: option.splits)

lemma inv_fields:
  assumes "streamer_inv s"
    and "nextTimerId s' = nextTimerId s" "checkInterval s' = checkInterval s"
    and "intervals s' = intervals s" "audioQueue s' = audioQueue s"
    and "activeSources s' \<subseteq> activeSources s" "length (sources s') = length (sources s)"
    and "endOfQueueAudioSource s' = endOfQueueAudioSource s \<or> endOfQueueAudioSource s' = None"
    and "gainNode s' = gainNode s"
  shows "streamer_inv s'"
  using assms by (auto simp: streamer_inv_def split: option.splits)

lemma inv_addPCM16: "streamer_inv s \<Longrightarrow> streamer_inv (snd (addPCM16 now chunk s))"
proof -
  assume "streamer_inv s"
  then have e: "streamer_inv (enqueuePCM16 chunk s)" by (rule inv_enqueuePCM16)
  then have "streamer_inv ((enqueuePCM16 chunk s)\<lparr>isPlaying := True, scheduledTime := now + initialBufferTime\<rparr>)"
    by (rule inv_fields) simp_all
  with e show ?thesis
    by (simp add: addPCM16_def Let_def inv_scheduleNextBuffer)
qed

lemma length_stopSources [simp]: "length (stopSources A ns) = length ns"
  by (simp add: stopSources_def)

lemma nth_stopSources:
  "i < length ns \<Longrightarrow>
   stopSources A ns ! i = (if i \<in> A then (ns ! i)\<lparr>stopCalled := True\<rparr> else ns ! i)"
  by (simp add: stopSources_def nth_enumerate_eq)

lemma map_stopSources:
  assumes "\<And>n. f (n\<lparr>stopCalled := True\<rparr>) = f n"
  shows "map f (stopSources A ns) = map f ns"
  by (rule nth_equalityI) (simp_all add: nth_stopSources assms)

lemma stop_simps [simp]:
  "audioQueue (stop now s) = []"
  "isPlaying (stop now s) = False"
  "isStreamComplete (stop now s) = True"
  "scheduledTime (stop now s) = now"
  "activeSources (stop now s) = {}"
  "sources (stop now s) = stopSources (activeSources s) (sources s)"
  "endOfQueueAudioSource (stop now s) = endOfQueueAudioSource s"
  "timeouts (stop now s) = timeouts s"
  "nextTimerId (stop now s) = nextTimerId s"
  "consoleErrors (stop now s) = consoleErrors s"
  "onCompleteCalls (stop now s) = onCompleteCalls s"
  "gainNode (stop now s) = gainNode s"
  "padGain (stop now s) = padGain s"
  "padOscillators (stop now s) = padOscillators s"
  "padFilter (stop now s) = padFilter s"
  by (simp_all add: stop_def)

lemma stop_timer:
  "streamer_inv s \<Longrightarrow> checkInterval (stop now s) = None \<and> intervals (stop now s) = {}"
  by (auto simp: streamer_inv_def stop_def clearCheckInterval_def clearInterval_def truthy_def
           split: option.splits)

lemma inv_stop: "streamer_inv s \<Longrightarrow> streamer_inv (stop now s)"
  using stop_timer[of s now] by (auto simp: streamer_inv_def split: option.splits)

lemma inv_resume: "streamer_inv s \<Longrightarrow> streamer_inv (resume now s)"
  by (auto simp: streamer_inv_def resume_def split: option.splits)

lemma inv_complete: "streamer_inv s \<Longrightarrow> streamer_inv (complete' s)"
  by (auto simp: streamer_inv_def complete'_def invokeOnComplete_def split: option.splits)

lemma inv_startPad: "streamer_inv s \<Longrightarrow> streamer_inv (startPad now volume rnd s)"
  by (auto simp: streamer_inv_def startPad_def split: option.splits)

lemma inv_setPadVolume: "streamer_inv s \<Longrightarrow> streamer_inv (setPadVolume now volume s)"
  by (auto simp: streamer_inv_def setPadVolume_def split: option.splits)

lemma inv_stopPad: "streamer_inv s \<Longrightarrow> streamer_inv (stopPad now s)"
  by (auto simp: streamer_inv_def stopPad_def split: option.splits)

lemma inv_padTeardown: "streamer_inv s \<Longrightarrow> streamer_inv (padTeardown s)"
  by (auto simp: streamer_inv_def padTeardown_def split: option.splits)

lemma runHandler_frame [simp]:
  "audioQueue (runHandler h u s) = audioQueue s"
  "isPlaying (runHandler h u s) = isPlaying s"
  "isStreamComplete (runHandler h u s) = isStreamComplete s"
  "scheduledTime (runHandler h u s) = scheduledTime s"
  "sources (runHandler h u s) = sources s"
  "checkInterval (runHandler h u s) = checkInterval s"
  "intervals (runHandler h u s) = intervals s"
  "timeouts (runHandler h u s) = timeouts s"
  "nextTimerId (runHandler h u s) = nextTimerId s"
  "consoleErrors (runHandler h u s) = consoleErrors s"
  "gainNode (runHandler h u s) = gainNode s"
  "padGain (runHandler h u s) = padGain s"
  "padOscillators (runHandler h u s) = padOscillators s"
  "padFilter (runHandler h u s) = padFilter s"
  by (simp_all add: runHandler_def Let_def invokeOnComplete_def split: handler.split)

lemma runHandler_activeSources:
  "activeSources (runHandler h u s) = (if h = NoHandler then activeSources s else activeSources s - {u})"
  by (simp add: runHandler_def Let_def invokeOnComplete_def split: handler.split)

lemma runHandler_marker:
  "endOfQueueAudioSource (runHandler h u s) = endOfQueueAudioSource s \<or>
   endOfQueueAudioSource (runHandler h u s) = None"
  by (simp add: runHandler_def Let_def invokeOnComplete_def split: handler.split)

lemma dispatchEnded_frame [simp]:
  "audioQueue (dispatchEnded u s) = audioQueue s"
  "isPlaying (dispatchEnded u s) = isPlaying s"
  "isStreamComplete (dispatchEnded u s) = isStreamComplete s"
  "scheduledTime (dispatchEnded u s) = scheduledTime s"
  "checkInterval (dispatchEnded u s) = checkInterval s"
  "intervals (dispatchEnded u s) = intervals s"
  "timeouts (dispatchEnded u s) = timeouts s"
  "nextTimerId (dispatchEnded u s) = nextTimerId s"
  "consoleErrors (dispatchEnded u s) = consoleErrors s"
  "gainNode (dispatchEnded u s) = gainNode s"
  "padGain (dispatchEnded u s) = padGain s"
  "padOscillators (dispatchEnded u s) = padOscillators s"
  "padFilter (dispatchEnded u s) = padFilter s"
  "length (sources (dispatchEnded u s)) = length (sources s)"
  "map channelData (sources (dispatchEnded u s)) = map channelData (sources s)"
  "map node_span (sources (dispatchEnded u s)) = map node_span (sources s)"
  by (simp_all add: dispatchEnded_def map_update_same node_span_def)

lemma inv_dispatchEnded: "streamer_inv s \<Longrightarrow> streamer_inv (dispatchEnded u s)"
proof (rule inv_fields)
  show "activeSources (dispatchEnded u s) \<subseteq> activeSources s"
    by (auto simp: dispatchEnded_def runHandler_activeSources)
  show "endOfQueueAudioSource (dispatchEnded u s) = endOfQueueAudioSource s \<or>
        endOfQueueAudioSource (dispatchEnded u s) = None"
    using runHandler_marker[of "onended (sources s ! u)" u
            "s\<lparr>sources := (sources s)[u := (sources s ! u)\<lparr>ended := True\<rparr>]\<rparr>"]
    by (simp add: dispatchEnded_def)
qed simp_all

lemma inv_fireInterval: "streamer_inv s \<Longrightarrow> streamer_inv (snd (fireInterval t now s))"
  by (simp add: fireInterval_def intervalCallback_def inv_scheduleNextBuffer)

lemma inv_fireTimeout: "streamer_inv s \<Longrightarrow> streamer_inv (snd (fireTimeout t now s))"
proof -
  assume i: "streamer_inv s"
  have "streamer_inv (s\<lparr>timeouts := ts\<rparr>)" for ts
    using i by (rule inv_fields) simp_all
  then show ?thesis
    using i by (auto simp: fireTimeout_def Let_def inv_scheduleNextBuffer inv_padTeardown
                     split: option.split timer_callback.split)
qed

lemma inv_step: "streamer_inv s \<Longrightarrow> streamer_inv (step e s)"
  by (cases e)
     (simp_all add: step_def inv_addPCM16 inv_stop inv_resume inv_complete inv_startPad
        inv_setPadVolume inv_stopPad inv_fireInterval inv_fireTimeout inv_dispatchEnded)

lemma inv_run: "streamer_inv s \<Longrightarrow> streamer_inv (run es s)"
  by (induction es arbitrary: s) (simp_all add: inv_step)

lemma inv_reachable: "streamer_inv (run es new_streamer)"
  by (rule inv_run) (rule inv_new_streamer)

subsection \<open>Blocks and samples along a run\<close>

lemma blocks_of_addPCM16:
  assumes "[] \<notin> set (audioQueue s)"
  shows "blocks_of (snd (addPCM16 now chunk s)) = blocks_of s @ blocks (fst (processPCM16Chunk chunk))"
    and "[] \<notin> set (audioQueue (snd (addPCM16 now chunk s)))"
    and "fst (addPCM16 now chunk s) = None"
proof -
  let ?s1 = "enqueuePCM16 chunk s"
  let ?s2 = "?s1\<lparr>isPlaying := True, scheduledTime := now + initialBufferTime\<rparr>"
  have q: "[] \<notin> set (audioQueue ?s2)" "[] \<notin> set (audioQueue ?s1)"
    using assms by (simp_all add: blocks_nonempty)
  have b: "blocks_of ?s2 = blocks_of s @ blocks (fst (processPCM16Chunk chunk))"
          "blocks_of ?s1 = blocks_of s @ blocks (fst (processPCM16Chunk chunk))"
    by (simp_all add: blocks_of_def)
  show "blocks_of (snd (addPCM16 now chunk s)) = blocks_of s @ blocks (fst (processPCM16Chunk chunk))"
    using scheduleNextBuffer_blocks_of(1)[OF q(1), of now] b
    by (simp add: addPCM16_def Let_def)
  show "[] \<notin> set (audioQueue (snd (addPCM16 now chunk s)))"
    using scheduleNextBuffer_blocks_of(2)[OF q(1), of now] q(2)
    by (simp add: addPCM16_def Let_def)
  show "fst (addPCM16 now chunk s) = None"
    using scheduleNextBuffer_no_throw[OF q(1), of now]
    by (simp add: addPCM16_def Let_def)
qed

lemma blocks_of_cong:
  "map channelData (sources s') = map channelData (sources s) \<Longrightarrow> audioQueue s' = audioQueue s
   \<Longrightarrow> blocks_of s' = blocks_of s"
  by (simp add: blocks_of_def)

lemma blocks_of_fireInterval:
  assumes "[] \<notin> set (audioQueue s)"
  shows "blocks_of (snd (fireInterval t now s)) = blocks_of s"
    and "[] \<notin> set (audioQueue (snd (fireInterval t now s)))"
  using scheduleNextBuffer_blocks_of[OF assms, of now] assms
  by (simp_all add: fireInterval_def intervalCallback_def)

lemma blocks_of_fireTimeout:
  assumes "[] \<notin> set (audioQueue s)"
  shows "blocks_of (snd (fireTimeout t now s)) = blocks_of s"
    and "[] \<notin> set (audioQueue (snd (fireTimeout t now s)))"
proof -
  have q: "[] \<notin> set (audioQueue (s\<lparr>timeouts := ts\<rparr>))" for ts
    using assms by simp
  have b: "blocks_of (s\<lparr>timeouts := ts\<rparr>) = blocks_of s" for ts
    by (simp add: blocks_of_def)
  show "blocks_of (snd (fireTimeout t now s)) = blocks_of s"
    using scheduleNextBuffer_blocks_of(1)[OF q, of now] b
    by (auto simp: fireTimeout_def Let_def padTeardown_def blocks_of_def
             split: option.split timer_callback.split)
  show "[] \<notin> set (audioQueue (snd (fireTimeout t now s)))"
    using scheduleNextBuffer_blocks_of(2)[OF q, of now] assms
    by (auto simp: fireTimeout_def Let_def padTeardown_def
             split: option.split timer_callback.split)
qed

lemma blocks_of_step:
  assumes "\<not> is_stop e" "[] \<notin> set (audioQueue s)"
  shows "blocks_of (step e s) = blocks_of s @ ingested e \<and> [] \<notin> set (audioQueue (step e s))"
proof (cases e)
  case (AddPCM16 now chunk)
  with blocks_of_addPCM16(1,2)[OF assms(2), of now chunk] show ?thesis
    by (simp add: step_def)
next
  case (IntervalFires t now)
  with blocks_of_fireInterval[OF assms(2), of t now] show ?thesis
    by (simp add: step_def)
next
  case (TimeoutFires t now)
  with blocks_of_fireTimeout[OF assms(2), of t now] show ?thesis
    by (simp add: step_def)
next
  case (Ended u)
  with assms(2) show ?thesis
    by (simp add: step_def blocks_of_def)
qed (use assms in \<open>simp_all add: step_def blocks_of_def resume_def complete'_def
       invokeOnComplete_def startPad_def setPadVolume_def stopPad_def split: option.split\<close>)

lemma blocks_of_run:
  assumes "\<forall>e \<in> set es. \<not> is_stop e" "[] \<notin> set (audioQueue s)"
  shows "blocks_of (run es s) = blocks_of s @ concat (map ingested es)"
  using assms
proof (induction es arbitrary: s)
  case Nil
  then show ?case by simp
next
  case (Cons e es)
  from Cons.prems have e: "\<not> is_stop e" and q: "[] \<notin> set (audioQueue s)" by simp_all
  from blocks_of_step[OF e q]
  have b: "blocks_of (step e s) = blocks_of s @ ingested e"
    and q': "[] \<notin> set (audioQueue (step e s))" by simp_all
  from Cons.prems have "\<forall>e \<in> set es. \<not> is_stop e" by simp
  from Cons.IH[OF this q'] b show ?case by simp
qed

lemma samples_step:
  assumes "\<not> is_stop e"
  shows "concat (blocks_of (step e s)) = concat (blocks_of s) @ decoded e"
proof (cases e)
  case (AddPCM16 now chunk)
  let ?s1 = "enqueuePCM16 chunk s"
  let ?s2 = "?s1\<lparr>isPlaying := True, scheduledTime := now + initialBufferTime\<rparr>"
  have "concat (blocks_of ?s2) = concat (blocks_of s) @ fst (processPCM16Chunk chunk)"
       "concat (blocks_of ?s1) = concat (blocks_of s) @ fst (processPCM16Chunk chunk)"
    by (simp_all add: blocks_of_def concat_blocks)
  with scheduleNextBuffer_samples[of now ?s2] AddPCM16 show ?thesis
    by (simp add: step_def addPCM16_def Let_def)
next
  case (IntervalFires t now)
  with scheduleNextBuffer_samples[of now s] show ?thesis
    by (simp add: step_def fireInterval_def intervalCallback_def)
next
  case (TimeoutFires t now)
  have "concat (blocks_of (s\<lparr>timeouts := ts\<rparr>)) = concat (blocks_of s)" for ts
    by (simp add: blocks_of_def)
  with scheduleNextBuffer_samples[of now "s\<lparr>timeouts := ts\<rparr>" for ts] TimeoutFires show ?thesis
    by (auto simp: step_def fireTimeout_def Let_def padTeardown_def blocks_of_def
             split: option.split timer_callback.split)
next
  case (Ended u)
  then show ?thesis
    by (simp add: step_def blocks_of_def)
qed (use assms in \<open>simp_all add: step_def blocks_of_def resume_def complete'_def
       invokeOnComplete_def startPad_def setPadVolume_def stopPad_def split: option.split\<close>)

lemma samples_run:
  assumes "\<forall>e \<in> set es. \<not> is_stop e"
  shows "concat (blocks_of (run es s)) = concat (blocks_of s) @ concat (map decoded es)"
  using assms
proof (induction es arbitrary: s)
  case Nil
  then show ?case by simp
next
  case (Cons e es)
  then show ?case by (simp add: samples_step)
qed

lemma decoded_chunks:
  assumes "\<forall>c \<in> set (chunks_of es). from_start c \<and> even (length_u8 c)"
  shows "concat (map decoded es) = le_int16_samples (concat (map bytes_of (chunks_of es)))"
  using assms
proof (induction es rule: chunks_of.induct)
  case (2 now chunk es)
  then have c: "from_start chunk" "even (length_u8 chunk)" by simp_all
  then have "even (length (bytes_of chunk))"
    by (simp add: bytes_of_def from_start_def wf_view_def)
  with 2 c show ?case
    by (simp add: decode_from_start le_int16_samples_append)
qed simp_all

subsection \<open>Whole buffers and odd lengths\<close>

lemma from_start_whole: "from_start (whole bs)"
  by (simp add: from_start_def wf_view_def whole_def)

lemma bytes_of_whole: "bytes_of (whole bs) = bs"
  by (simp add: bytes_of_def whole_def)

lemma decode_whole: "fst (processPCM16Chunk (whole bs)) = le_int16_samples bs"
  by (simp add: decode_from_start from_start_whole bytes_of_whole)

lemma decode_length: "length (fst (processPCM16Chunk chunk)) = length_u8 chunk div 2"
  by (simp add: processPCM16Chunk_def processLoop_length)

lemma decode_nth:
  "i < length_u8 chunk div 2 \<Longrightarrow>
   fst (processPCM16Chunk chunk) ! i =
     (case getInt16 (buffer chunk) (i * 2) of Some v \<Rightarrow> real_of_int v / 32768 | None \<Rightarrow> 0)"
proof -
  assume i: "i < length_u8 chunk div 2"
  then have "2 * i < length_u8 chunk" by arith
  with i show ?thesis
    by (simp add: processPCM16Chunk_def processLoop_nth split: option.split)
qed

lemma decode_errs:
  "snd (processPCM16Chunk chunk) =
     filter (\<lambda>i. getInt16 (buffer chunk) (i * 2) = None) [0..<(length_u8 chunk + 1) div 2]"
  by (simp add: processPCM16Chunk_def processLoop_errs)

lemma decode_errs_odd:
  assumes "odd (length bs)"
  shows "snd (processPCM16Chunk (whole bs)) = [length bs div 2]"
proof -
  define k where "k = length bs div 2"
  have len: "length bs = 2 * k + 1"
    using assms unfolding k_def by (elim oddE) simp
  have "filter (\<lambda>i. getInt16 bs (i * 2) = None) [0..<k] = []"
    by (auto simp: filter_empty_conv getInt16_def len)
  moreover have "getInt16 bs (k * 2) = None"
    by (simp add: getInt16_def len)
  moreover have "(length bs + 1) div 2 = Suc k"
    by (simp add: len)
  ultimately show ?thesis
    by (simp add: decode_errs whole_def k_def[symmetric])
qed

lemma addPCM16_flags:
  "\<not> isStreamComplete (snd (addPCM16 now chunk s))"
  "isPlaying (snd (addPCM16 now chunk s))"
proof -
  let ?s2 = "(enqueuePCM16 chunk s)\<lparr>isPlaying := True, scheduledTime := now + initialBufferTime\<rparr>"
  show "\<not> isStreamComplete (snd (addPCM16 now chunk s))"
    using scheduleNextBuffer_frame[of now ?s2] by (simp add: addPCM16_def Let_def)
  have "isPlaying (snd (scheduleNextBuffer now ?s2))"
    by (rule scheduleNextBuffer_isPlaying) simp_all
  then show "isPlaying (snd (addPCM16 now chunk s))"
    by (simp add: addPCM16_def Let_def)
qed

text \<open>The equations by which a run on given inputs is computed.\<close>

lemmas run_eqs =
  step_def addPCM16_def enqueuePCM16_def processPCM16Chunk_def whole_def new_streamer_def
  processLoop.simps getInt16_def typed_set_def int16_le_def pushBlocks_def splitLoop.simps
  bufferSize_def Let_def scheduleNextBuffer_def scheduleLoop.simps createAudioBuffer_def
  scheduleOne_def initialBufferTime_def SCHEDULE_AHEAD_TIME_def duration_def sampleRate_def
  rearm_def truthy_def clearCheckInterval_def clearInterval_def stop_def stopSources_def
  resume_def complete'_def invokeOnComplete_def fireInterval_def intervalCallback_def
  fireTimeout_def dispatchEnded_def runHandler_def blocks_of_def

lemma ceiling_div_nat:
  fixes N B :: nat
  assumes "0 < B"
  shows "\<lceil>real N / real B\<rceil> = int ((N + B - 1) div B)"
proof -
  define k where "k = N div B"
  define r where "r = N mod B"
  have N: "N = k * B + r" and r: "r < B"
    using assms by (simp_all add: k_def r_def)
  have q: "real N / real B = real k + real r / real B"
    using assms by (simp add: N field_simps)
  have d: "(N + B - 1) div B = k + (if r = 0 then 0 else 1)"
    unfolding N by (rule ceil_div_nat[OF assms r])
  show ?thesis
  proof (cases "r = 0")
    case True
    with q d show ?thesis by simp
  next
    case False
    have "\<lceil>real N / real B\<rceil> = int k + 1"
    proof (rule ceiling_unique)
      show "of_int (int k + 1) - 1 < real N / real B"
        using False assms by (simp add: q)
      show "real N / real B \<le> of_int (int k + 1)"
        using r assms by (simp add: q)
    qed
    with False d show ?thesis by simp
  qed
qed

lemma length_blocks_ceiling:
  "int (length (blocks xs)) = \<lceil>real (length xs) / real bufferSize\<rceil>"
  by (simp add: length_blocks ceiling_div_nat bufferSize_pos)

lemma whole_fields [simp]:
  "length_u8 (whole bs) = length bs"
  "buffer (whole bs) = bs"
  "byteOffset (whole bs) = 0"
  by (simp_all add: whole_def)

lemma blocks_short:
  "xs \<noteq> [] \<Longrightarrow> length xs < bufferSize \<Longrightarrow> blocks xs = [xs]"
  by (simp add: blocks_closed)

lemma enqueue_odd:
  assumes "odd (length bs)"
  shows "enqueuePCM16 (whole bs) s =
           (enqueuePCM16 (whole (butlast bs)) s)\<lparr>consoleErrors := Suc (consoleErrors s)\<rparr>"
proof -
  have e: "even (length_u8 (whole (butlast bs)))"
    using assms by simp
  have 1: "fst (processPCM16Chunk (whole bs)) = fst (processPCM16Chunk (whole (butlast bs)))"
    using assms by (simp add: decode_whole le_int16_samples_butlast)
  have 2: "snd (processPCM16Chunk (whole bs)) = [length bs div 2]"
    using assms by (rule decode_errs_odd)
  have 3: "snd (processPCM16Chunk (whole (butlast bs))) = []"
    using e by (simp add: decode_no_errors from_start_whole)
  obtain a b where p: "processPCM16Chunk (whole bs) = (a, b)"
    by (cases "processPCM16Chunk (whole bs)")
  obtain a' b' where p': "processPCM16Chunk (whole (butlast bs)) = (a', b')"
    by (cases "processPCM16Chunk (whole (butlast bs))")
  from 1 2 3 p p' show ?thesis
    by (simp add: enqueuePCM16_def)
qed

lemma gain_connected_reachable: "gain_connected (gainNode (run es new_streamer))"
  using inv_reachable[of es] by (simp add: streamer_inv_def)

subsection \<open>Nodes back to back\<close>

lemma duration_nonneg: "0 \<le> duration b"
  by (simp add: duration_def sampleRate_def)

lemma back_to_back_snoc:
  "back_to_back (ps @ [p]) \<longleftrightarrow> back_to_back ps \<and> (ps \<noteq> [] \<longrightarrow> snd (last ps) \<le> fst p)"
  by (induction ps rule: back_to_back.induct) auto

lemma back_to_back_sorted:
  "back_to_back ps \<Longrightarrow> \<forall>p \<in> set ps. fst p \<le> snd p \<Longrightarrow> sorted (map fst ps)"
proof (induction ps rule: back_to_back.induct)
  case (3 a b r)
  then have "sorted (map fst (b # r))" by simp
  moreover from 3 have "fst a \<le> fst b" by auto
  ultimately show ?case by (auto simp: order_trans)
qed simp_all

lemma chain_trivial: "length (sources s) \<le> k \<Longrightarrow> chain k s"
  by (simp add: chain_def)

lemma chain_cong:
  "map node_span (sources s') = map node_span (sources s) \<Longrightarrow> scheduledTime s' = scheduledTime s
   \<Longrightarrow> chain k s' = chain k s"
  by (simp add: chain_def)

lemma chain_scheduleOne:
  assumes "chain k s"
  shows "chain k (scheduleOne now b s)"
proof (cases "k \<le> length (sources s)")
  case False
  then show ?thesis by (simp add: chain_def)
next
  case True
  let ?m = "max (scheduledTime s) now"
  let ?old = "drop k (map node_span (sources s))"
  from assms have b: "back_to_back ?old" and e: "\<forall>p \<in> set ?old. snd p \<le> scheduledTime s"
    by (simp_all add: chain_def)
  have "snd (last ?old) \<le> ?m" if "?old \<noteq> []"
  proof -
    from that have "last ?old \<in> set ?old" by (rule last_in_set)
    with e have "snd (last ?old) \<le> scheduledTime s" by blast
    then show ?thesis by simp
  qed
  then have "?old \<noteq> [] \<longrightarrow> snd (last ?old) \<le> ?m" by blast
  with b have "back_to_back (?old @ [(?m, ?m + duration b)])"
    by (simp add: back_to_back_snoc)
  moreover have "\<forall>p \<in> set (?old @ [(?m, ?m + duration b)]). snd p \<le> ?m + duration b"
  proof
    fix p assume "p \<in> set (?old @ [(?m, ?m + duration b)])"
    then consider "p \<in> set ?old" | "p = (?m, ?m + duration b)" by auto
    then show "snd p \<le> ?m + duration b"
    proof cases
      case 1
      with e have "snd p \<le> scheduledTime s" by blast
      with duration_nonneg[of b] show ?thesis by simp
    next
      case 2
      then show ?thesis by simp
    qed
  qed
  ultimately show ?thesis
    using True by (simp add: chain_def)
qed

lemma chain_scheduleLoop: "chain k s \<Longrightarrow> chain k (snd (scheduleLoop now s))"
proof (rule scheduleLoop_preserves)
  fix s d rest
  assume "chain k s"
  then have "chain k (s\<lparr>audioQueue := rest\<rparr>)" by (simp add: chain_def)
  then show "chain k (scheduleOne now d (s\<lparr>audioQueue := rest\<rparr>))"
    by (rule chain_scheduleOne)
qed (simp_all add: chain_def)

lemma chain_scheduleNextBuffer: "chain k s \<Longrightarrow> chain k (snd (scheduleNextBuffer now s))"
  using chain_scheduleLoop[of k s now]
  by (simp add: scheduleNextBuffer_snd chain_cong[of "rearm now s'" s' for s'])

lemma chain_addPCM16_idle:
  assumes "\<not> isPlaying s"
  shows "chain (length (sources s)) (snd (addPCM16 now chunk s))"
proof -
  let ?s2 = "(enqueuePCM16 chunk s)\<lparr>isPlaying := True, scheduledTime := now + initialBufferTime\<rparr>"
  have "chain (length (sources s)) ?s2" by (rule chain_trivial) simp
  then have "chain (length (sources s)) (snd (scheduleNextBuffer now ?s2))"
    by (rule chain_scheduleNextBuffer)
  with assms show ?thesis by (simp add: addPCM16_def Let_def)
qed

lemma chain_step:
  assumes "\<not> resets e s" "chain k s"
  shows "chain k (step e s)"
proof (cases e)
  case (AddPCM16 now chunk)
  with assms(1) have "isPlaying s" by simp
  with AddPCM16 assms(2) show ?thesis
    by (simp add: step_def addPCM16_def Let_def chain_def)
next
  case (IntervalFires t now)
  with assms(2) chain_scheduleNextBuffer[OF assms(2), of now] show ?thesis
    by (simp add: step_def fireInterval_def intervalCallback_def)
next
  case (TimeoutFires t now)
  have "chain k (s\<lparr>timeouts := ts\<rparr>)" for ts
    using assms(2) by (simp add: chain_def)
  from chain_scheduleNextBuffer[OF this, of now] assms(2) TimeoutFires show ?thesis
    by (auto simp: step_def fireTimeout_def Let_def padTeardown_def chain_def
             split: option.split timer_callback.split)
next
  case (Ended u)
  with assms(2) show ?thesis
    by (simp add: step_def chain_def)
qed (use assms in \<open>simp_all add: step_def chain_def complete'_def invokeOnComplete_def
       startPad_def setPadVolume_def stopPad_def split: option.split\<close>)

lemma chain_first: "chain (length (sources s)) (step e s)"
proof (cases "resets e s")
  case False
  then show ?thesis by (rule chain_step) (simp add: chain_trivial)
next
  case True
  then show ?thesis
  proof (cases e)
    case (AddPCM16 now chunk)
    with True chain_addPCM16_idle[of s now chunk] show ?thesis by (simp add: step_def)
  qed (simp_all add: step_def chain_trivial resume_def)
qed

lemma chain_run: "no_resets es s \<Longrightarrow> chain k s \<Longrightarrow> chain k (run es s)"
  by (induction es arbitrary: s) (simp_all add: chain_step)

lemma span_fst: "map fst (map node_span ns) = map startTime ns"
  by (simp add: node_span_def)

lemma chain_sorted:
  assumes "chain k s"
  shows "sorted (map startTime (drop k (sources s)))"
proof -
  from assms have "back_to_back (drop k (map node_span (sources s)))" by (simp add: chain_def)
  moreover have "\<forall>p \<in> set (drop k (map node_span (sources s))). fst p \<le> snd p"
    using duration_nonneg by (auto simp: node_span_def dest!: in_set_dropD)
  ultimately have "sorted (map fst (drop k (map node_span (sources s))))"
    by (rule back_to_back_sorted)
  then show ?thesis by (simp add: drop_map node_span_def o_def)
qed

lemma scheduleLoop_fifo:
  assumes "[] \<notin> set (audioQueue s)"
  shows "map channelData (sources (snd (scheduleLoop now s))) @ audioQueue (snd (scheduleLoop now s))
           = map channelData (sources s) @ audioQueue s"
  using scheduleLoop_blocks_of[OF assms, of now] by (simp add: blocks_of_def)

subsection \<open>When \<open>onComplete\<close> is called\<close>
















subsection \<open>The order of the blocks\<close>

lemma subseq_scheduleLoop: "subseq (blocks_of (snd (scheduleLoop now s))) (blocks_of s)"
proof (rule scheduleLoop_preserves)
  fix s' d rest
  assume "subseq (blocks_of s') (blocks_of s)" and "audioQueue s' = d # rest"
  then show "subseq (blocks_of (scheduleOne now d (s'\<lparr>audioQueue := rest\<rparr>))) (blocks_of s)"
    by (simp add: blocks_of_def)
next
  fix s' rest
  assume a: "subseq (blocks_of s') (blocks_of s)" and q: "audioQueue s' = [] # rest"
  have "subseq rest ([] # rest)"
    by (rule list_emb_Cons) simp
  then have "subseq (blocks_of (s'\<lparr>audioQueue := rest\<rparr>)) (blocks_of s')"
    using q by (simp add: blocks_of_def subseq_append')
  from this a show "subseq (blocks_of (s'\<lparr>audioQueue := rest\<rparr>)) (blocks_of s)"
    by (rule subseq_order.trans)
qed simp

lemma subseq_scheduleNextBuffer:
  "subseq (blocks_of (snd (scheduleNextBuffer now s))) (blocks_of s)"
  using subseq_scheduleLoop[of now s] by (simp add: scheduleNextBuffer_snd blocks_of_def)

lemma subseq_step: "subseq (blocks_of (step e s)) (blocks_of s @ ingested e)"
proof (cases e)
  case (AddPCM16 now chunk)
  let ?s1 = "enqueuePCM16 chunk s"
  let ?s2 = "?s1\<lparr>isPlaying := True, scheduledTime := now + initialBufferTime\<rparr>"
  have "blocks_of ?s2 = blocks_of s @ ingested e" "blocks_of ?s1 = blocks_of s @ ingested e"
    using AddPCM16 by (simp_all add: blocks_of_def)
  with subseq_scheduleNextBuffer[of now ?s2] AddPCM16 show ?thesis
    by (simp add: step_def addPCM16_def Let_def)
next
  case (Stop now)
  then show ?thesis
    by (simp add: step_def blocks_of_def map_stopSources subseq_rev_drop_many)
next
  case (IntervalFires t now)
  with subseq_scheduleNextBuffer[of now s] show ?thesis
    by (simp add: step_def fireInterval_def intervalCallback_def)
next
  case (TimeoutFires t now)
  have "blocks_of (s\<lparr>timeouts := ts\<rparr>) = blocks_of s" for ts
    by (simp add: blocks_of_def)
  with subseq_scheduleNextBuffer[of now "s\<lparr>timeouts := ts\<rparr>" for ts] TimeoutFires show ?thesis
    by (auto simp: step_def fireTimeout_def Let_def padTeardown_def blocks_of_def
             split: option.split timer_callback.split)
next
  case (Ended u)
  then show ?thesis
    by (simp add: step_def blocks_of_def)
qed (simp_all add: step_def blocks_of_def resume_def complete'_def
       invokeOnComplete_def startPad_def setPadVolume_def stopPad_def split: option.split)

lemma subseq_run: "subseq (blocks_of (run es s)) (blocks_of s @ concat (map ingested es))"
proof (induction es arbitrary: s)
  case Nil
  show ?case by simp
next
  case (Cons e es)
  have "subseq (blocks_of (run es (step e s))) (blocks_of (step e s) @ concat (map ingested es))"
    by (rule Cons.IH)
  also have "subseq (blocks_of (step e s) @ concat (map ingested es))
               ((blocks_of s @ ingested e) @ concat (map ingested es))"
    using subseq_step[of e s] by (intro list_emb_append_mono) simp_all
  finally show ?case by simp
qed

subsection \<open>Chunks seen from the start of their buffer\<close>

text \<open>
  Whatever events a run consists of, as long as none is a \<open>stop()\<close> (which throws
  the queue away) and every chunk ingested is an even number of bytes seen from the start
  of its buffer: the samples of all the blocks taken in, nodes first and queue after, in
  order, are the samples the run started with followed by the little-endian conversion of
  the concatenation of all the input bytes.
\<close>

lemma samples_roundtrip_from_start:
  assumes "\<forall>e \<in> set es. \<not> is_stop e"
    and "\<forall>c \<in> set (chunks_of es). from_start c \<and> even (length_u8 c)"
  shows "concat (blocks_of (run es s)) =
           concat (blocks_of s) @ le_int16_samples (concat (map bytes_of (chunks_of es)))"
  using assms by (simp add: samples_run decoded_chunks)

lemma samples_roundtrip_from_start_example:
  "list_all (\<lambda>e. \<not> is_stop e)
     [AddPCM16 0 (whole [1, 0]), IntervalFires 1 0.1, AddPCM16 0.1 (whole [255, 255, 0, 128])] \<and>
   list_all (\<lambda>c. from_start c \<and> even (length_u8 c))
     (chunks_of [AddPCM16 0 (whole [1, 0]), IntervalFires 1 0.1,
                 AddPCM16 0.1 (whole [255, 255, 0, 128])]) \<and>
   concat (blocks_of (run [AddPCM16 0 (whole [1, 0]), IntervalFires 1 0.1,
                           AddPCM16 0.1 (whole [255, 255, 0, 128])] new_streamer))
     = [1 / 32768, - 1 / 32768, - 1]"
proof -
  let ?es = "[AddPCM16 0 (whole [1, 0]), IntervalFires 1 0.1, AddPCM16 0.1 (whole [255, 255, 0, 128])]"
  have h1: "\<forall>e \<in> set ?es. \<not> is_stop e"
    by simp
  have h2: "\<forall>c \<in> set (chunks_of ?es). from_start c \<and> even (length_u8 c)"
    by (simp add: from_start_whole)
  have "concat (blocks_of (run ?es new_streamer)) = [1 / 32768, - 1 / 32768, - 1]"
    using samples_roundtrip_from_start[OF h1 h2, of new_streamer]
    by (simp add: bytes_of_whole int16_le_def blocks_of_def new_streamer_def)
  with h1 h2 show ?thesis by (simp add: list_all_iff)
qed

subsection \<open>Nodes made earlier\<close>










section \<open>The claims\<close>




text \<open>
  C2, where the code departs from it. Two bytes are ingested, and two more while the
  node of the first is playing; the recheck interval schedules the second block, which
  empties the queue, so the first node loses its handler; when the first node then
  finishes, nothing runs, and it stays in the set of tracked nodes.
\<close>

theorem superseded_node_stays_tracked:
  "ended (sources (run [AddPCM16 0 (whole [1, 0]), AddPCM16 0.05 (whole [2, 0]),
                        IntervalFires 1 0.1, Ended 0] new_streamer) ! 0)
   \<and> \<not> stopCalled (sources (run [AddPCM16 0 (whole [1, 0]), AddPCM16 0.05 (whole [2, 0]),
                        IntervalFires 1 0.1, Ended 0] new_streamer) ! 0)
   \<and> onended (sources (run [AddPCM16 0 (whole [1, 0]), AddPCM16 0.05 (whole [2, 0]),
                        IntervalFires 1 0.1, Ended 0] new_streamer) ! 0) = NoHandler
   \<and> activeSources (run [AddPCM16 0 (whole [1, 0]), AddPCM16 0.05 (whole [2, 0]),
                        IntervalFires 1 0.1, Ended 0] new_streamer) = {1, 0}
   \<and> activeSources (run [AddPCM16 0 (whole [1, 0]), AddPCM16 0.05 (whole [2, 0]),
                        IntervalFires 1 0.1, Ended 0, Ended 1] new_streamer) = {0}"
  by (simp add: run_eqs insert_Diff_if)

text \<open>
  C3, where the code departs from it. The chunk shows the last two of the four bytes
  1, 0, 2, 0 of its buffer (\<open>new Uint8Array(buffer, 2, 2)\<close>, or a \<open>subarray(2)\<close>): an
  even number of bytes, whose little-endian conversion is the one sample \<open>2 / 32768\<close>.
  The decoder takes the number of samples from \<open>chunk.length\<close> but makes its DataView on
  \<open>chunk.buffer\<close>, the whole buffer, so it reads the first two bytes instead: the sample
  queued and scheduled is \<open>1 / 32768\<close>. (For chunks that start at offset 0 of their
  buffer the conversion is as specified: \<open>samples_roundtrip_from_start\<close>.)
\<close>

theorem offset_view_decoded_from_buffer_start:
  "wf_view \<lparr>buffer = [1, 0, 2, 0], byteOffset = 2, length_u8 = 2\<rparr>
   \<and> even (length_u8 \<lparr>buffer = [1, 0, 2, 0], byteOffset = 2, length_u8 = 2\<rparr>)
   \<and> bytes_of \<lparr>buffer = [1, 0, 2, 0], byteOffset = 2, length_u8 = 2\<rparr> = [2, 0]
   \<and> le_int16_samples [2, 0] = [1 / 16384]
   \<and> fst (processPCM16Chunk \<lparr>buffer = [1, 0, 2, 0], byteOffset = 2, length_u8 = 2\<rparr>) = [1 / 32768]
   \<and> concat (blocks_of (run [AddPCM16 0 \<lparr>buffer = [1, 0, 2, 0], byteOffset = 2, length_u8 = 2\<rparr>]
                               new_streamer)) = [1 / 32768]"
  by (simp add: wf_view_def bytes_of_def run_eqs)

text \<open>
  C4. One ingest whose input decodes to \<open>N\<close> samples pushes the blocks \<open>bs\<close> behind the
  blocks already queued: \<open>\<lceil>N / bufferSize\<rceil>\<close> of them, each of \<open>bufferSize = 7680\<close>
  samples but the last, which has \<open>N mod bufferSize\<close> samples, or \<open>bufferSize\<close> when that
  is zero; none is empty, and together they are the decoded samples in order. After the
  whole call, the blocks of the streamer, scheduled or queued, are the former ones followed
  by \<open>bs\<close>. A second ingest pushes its own blocks behind those of the first, which stay
  as they are. (For \<open>N = 0\<close> no block is pushed.)
\<close>

theorem ingest_blocks:
  assumes "N = length (fst (processPCM16Chunk chunk))"
    and "bs = blocks (fst (processPCM16Chunk chunk))"
  shows "audioQueue (enqueuePCM16 chunk s) = audioQueue s @ bs
       \<and> int (length bs) = \<lceil>real N / real bufferSize\<rceil>
       \<and> (\<forall>i < length bs. length (bs ! i) =
            (if Suc i < length bs then bufferSize
             else if N mod bufferSize = 0 then bufferSize else N mod bufferSize))
       \<and> [] \<notin> set bs
       \<and> concat bs = fst (processPCM16Chunk chunk)
       \<and> ([] \<notin> set (audioQueue s) \<longrightarrow>
            fst (addPCM16 now chunk s) = None \<and>
            blocks_of (snd (addPCM16 now chunk s)) = blocks_of s @ bs)
       \<and> audioQueue (enqueuePCM16 chunk' (enqueuePCM16 chunk s))
            = audioQueue s @ bs @ blocks (fst (processPCM16Chunk chunk'))
       \<and> bufferSize = 7680"
  using assms
  by (simp add: nth_blocks_length blocks_nonempty concat_blocks blocks_of_addPCM16
        length_blocks_ceiling)
     (simp add: bufferSize_def)

theorem ingest_blocks_witness:
  "audioQueue (enqueuePCM16 (whole [1, 0, 2, 0, 3, 0]) new_streamer)
     = [[1 / 32768, 1 / 16384, 3 / 32768]]
   \<and> length (blocks (fst (processPCM16Chunk (whole [1, 0, 2, 0, 3, 0])))) = 1
   \<and> length (blocks (fst (processPCM16Chunk (whole [1, 0, 2, 0, 3, 0]))) ! 0) = 3
   \<and> [] \<notin> set (audioQueue new_streamer)
   \<and> blocks_of (snd (addPCM16 0 (whole [1, 0, 2, 0, 3, 0]) new_streamer))
        = [[1 / 32768, 1 / 16384, 3 / 32768]]
   \<and> audioQueue (enqueuePCM16 (whole [4, 0]) (enqueuePCM16 (whole [1, 0, 2, 0, 3, 0]) new_streamer))
        = [[1 / 32768, 1 / 16384, 3 / 32768], [1 / 8192]]"
proof -
  have d: "fst (processPCM16Chunk (whole [1, 0, 2, 0, 3, 0])) = [1 / 32768, 1 / 16384, 3 / 32768]"
    by (simp add: decode_whole int16_le_def)
  have d': "fst (processPCM16Chunk (whole [4, 0])) = [1 / 8192]"
    by (simp add: decode_whole int16_le_def)
  have h1: "3 = length (fst (processPCM16Chunk (whole [1, 0, 2, 0, 3, 0])))"
    by (simp add: d)
  have h2: "[[1 / 32768, 1 / 16384, 3 / 32768]] = blocks (fst (processPCM16Chunk (whole [1, 0, 2, 0, 3, 0])))"
    by (simp add: d blocks_short bufferSize_def)
  have q: "[] \<notin> set (audioQueue new_streamer)" "audioQueue new_streamer = []"
          "blocks_of new_streamer = []"
    by (simp_all add: new_streamer_def blocks_of_def)
  show ?thesis
    using ingest_blocks[OF h1 h2, of new_streamer 0 "whole [4, 0]"] q
    by (simp add: d d' blocks_short bufferSize_def)
qed

text \<open>
  C5. A turn of the scheduling loop starts the node of the block it took from the head
  of the queue at \<open>max scheduledTime now\<close> and moves the cursor to that time plus the
  duration of the block. A pass takes blocks from the head of the queue only, in order.
  Along any run the blocks scheduled and queued are, in their order, among the blocks the
  state began with followed by the blocks ingested, and with no \<open>stop()\<close> in the run
  they are all of them. Along a run in which no event after the first resets the cursor,
  the nodes made follow one another without overlap: each starts no earlier than the
  one before it ends, and so their start times never decrease.
\<close>

theorem schedule_order:
  "startTime (last (sources (scheduleOne now b s))) = max (scheduledTime s) now
   \<and> channelData (last (sources (scheduleOne now b s))) = b
   \<and> scheduledTime (scheduleOne now b s) = max (scheduledTime s) now + duration b
   \<and> ([] \<notin> set (audioQueue s) \<longrightarrow>
        map channelData (sources (snd (scheduleLoop now s))) @ audioQueue (snd (scheduleLoop now s))
          = map channelData (sources s) @ audioQueue s)
   \<and> subseq (blocks_of (run es s)) (blocks_of s @ concat (map ingested es))
   \<and> ((\<forall>e \<in> set es. \<not> is_stop e) \<and> [] \<notin> set (audioQueue s) \<longrightarrow>
        blocks_of (run es s) = blocks_of s @ concat (map ingested es))
   \<and> (no_resets es (step e s) \<longrightarrow>
        back_to_back (drop (length (sources s)) (map node_span (sources (run (e # es) s)))) \<and>
        sorted (map startTime (drop (length (sources s)) (sources (run (e # es) s)))))"
proof -
  have "chain (length (sources s)) (run (e # es) s)" if "no_resets es (step e s)"
    using that chain_first[of s e] by (simp add: chain_run)
  then have "no_resets es (step e s) \<longrightarrow>
        back_to_back (drop (length (sources s)) (map node_span (sources (run (e # es) s)))) \<and>
        sorted (map startTime (drop (length (sources s)) (sources (run (e # es) s))))"
    using chain_sorted[of "length (sources s)" "run (e # es) s"]
    by (auto simp: chain_def)
  then show ?thesis
    by (simp add: scheduleOne_last scheduleLoop_fifo blocks_of_run subseq_run)
qed

theorem schedule_order_witness:
  "no_resets [AddPCM16 0.05 (whole [2, 0]), IntervalFires 1 0.1]
     (step (AddPCM16 0 (whole [1, 0])) new_streamer)
   \<and> map startTime (sources (run [AddPCM16 0 (whole [1, 0]), AddPCM16 0.05 (whole [2, 0]),
                                   IntervalFires 1 0.1] new_streamer))
       = [1 / 10, 2401 / 24000]
   \<and> map channelData (sources (run [AddPCM16 0 (whole [1, 0]), AddPCM16 0.05 (whole [2, 0]),
                                     IntervalFires 1 0.1] new_streamer))
       = [[1 / 32768], [1 / 16384]]
   \<and> sorted (map startTime (sources (run [AddPCM16 0 (whole [1, 0]), AddPCM16 0.05 (whole [2, 0]),
                                           IntervalFires 1 0.1] new_streamer)))"
proof -
  let ?e = "AddPCM16 0 (whole [1, 0])"
  let ?es = "[AddPCM16 0.05 (whole [2, 0]), IntervalFires 1 0.1]"
  have n: "no_resets ?es (step ?e new_streamer)"
    by (simp add: run_eqs)
  have v: "map startTime (sources (run (?e # ?es) new_streamer)) = [1 / 10, 2401 / 24000]"
          "map channelData (sources (run (?e # ?es) new_streamer)) = [[1 / 32768], [1 / 16384]]"
    by (simp_all add: run_eqs)
  have z: "length (sources new_streamer) = 0"
    by (simp add: new_streamer_def)
  from schedule_order[of 0 "[]" new_streamer ?es ?e] n
  have "sorted (map startTime (drop (length (sources new_streamer))
          (sources (run (?e # ?es) new_streamer))))"
    by blast
  then have "sorted (map startTime (sources (run (?e # ?es) new_streamer)))"
    unfolding z by simp
  with n v show ?thesis by simp
qed

text \<open>
  C6. In every state \<open>s\<close> a run from the constructor reaches, after \<open>stop()\<close> at the
  clock reading \<open>now\<close>: \<open>isPlaying\<close> is false, \<open>isStreamComplete\<close> is true, the queue is
  empty, \<open>stop()\<close> has been called on every node that was tracked, no node is tracked any
  more, the cursor is \<open>now\<close>, \<open>checkInterval\<close> is null and no recheck interval is left
  alive. Nothing is thrown: the model of \<open>stop()\<close> has no exception to return.
\<close>

theorem stop_postconditions:
  assumes "s = run es new_streamer"
  shows "\<not> isPlaying (stop now s)
       \<and> isStreamComplete (stop now s)
       \<and> audioQueue (stop now s) = []
       \<and> (\<forall>u \<in> activeSources s.
             u < length (sources (stop now s)) \<and> stopCalled (sources (stop now s) ! u))
       \<and> activeSources (stop now s) = {}
       \<and> scheduledTime (stop now s) = now
       \<and> checkInterval (stop now s) = None
       \<and> intervals (stop now s) = {}"
proof -
  have i: "streamer_inv s" unfolding assms by (rule inv_reachable)
  then have "\<forall>u \<in> activeSources s. u < length (sources s)"
    by (simp add: streamer_inv_def)
  then have "\<forall>u \<in> activeSources s.
             u < length (sources (stop now s)) \<and> stopCalled (sources (stop now s) ! u)"
    by (simp add: nth_stopSources)
  with stop_timer[OF i, of now] show ?thesis by simp
qed

theorem stop_postconditions_witness:
  "activeSources (run [AddPCM16 0 (whole [1, 0])] new_streamer) = {0}
   \<and> intervals (run [AddPCM16 0 (whole [1, 0])] new_streamer) = {1}
   \<and> isPlaying (run [AddPCM16 0 (whole [1, 0])] new_streamer)
   \<and> \<not> isPlaying (stop 0.05 (run [AddPCM16 0 (whole [1, 0])] new_streamer))
   \<and> isStreamComplete (stop 0.05 (run [AddPCM16 0 (whole [1, 0])] new_streamer))
   \<and> stopCalled (sources (stop 0.05 (run [AddPCM16 0 (whole [1, 0])] new_streamer)) ! 0)
   \<and> activeSources (stop 0.05 (run [AddPCM16 0 (whole [1, 0])] new_streamer)) = {}
   \<and> scheduledTime (stop 0.05 (run [AddPCM16 0 (whole [1, 0])] new_streamer)) = 0.05
   \<and> intervals (stop 0.05 (run [AddPCM16 0 (whole [1, 0])] new_streamer)) = {}"
proof -
  let ?s = "run [AddPCM16 0 (whole [1, 0])] new_streamer"
  have a: "activeSources ?s = {0}" "intervals ?s = {1}" "isPlaying ?s"
    by (simp_all add: run_eqs)
  from stop_postconditions[OF refl, of "0.05" "[AddPCM16 0 (whole [1, 0])]"] a(1)
  show ?thesis
    using a by simp
qed

text \<open>
  C7. \<open>stop()\<close> leaves the pad (its gain node with the ramps under way, its oscillators,
  its filter), the shared gain node, which stays connected in every state a run from the
  constructor reaches, and the pending one-shot timers as they are. The state after
  \<open>stop()\<close> is the state before it with new values for the two flags, the queue, the set
  of tracked nodes, the cursor, the recheck interval, and the nodes, of which only the
  \<open>stop()\<close> marks change.
\<close>

theorem stop_frame:
  "padGain (stop now s) = padGain s
   \<and> padOscillators (stop now s) = padOscillators s
   \<and> padFilter (stop now s) = padFilter s
   \<and> gainNode (stop now s) = gainNode s
   \<and> gain_connected (gainNode (stop now (run es new_streamer)))
   \<and> timeouts (stop now s) = timeouts s
   \<and> stop now s =
       s\<lparr>isPlaying := False, isStreamComplete := True, audioQueue := [],
         activeSources := {}, scheduledTime := now,
         checkInterval := checkInterval (stop now s), intervals := intervals (stop now s),
         sources := sources (stop now s)\<rparr>
   \<and> map (\<lambda>n. n\<lparr>stopCalled := False\<rparr>) (sources (stop now s))
       = map (\<lambda>n. n\<lparr>stopCalled := False\<rparr>) (sources s)"
proof -
  have "stop now s =
       s\<lparr>isPlaying := False, isStreamComplete := True, audioQueue := [],
         activeSources := {}, scheduledTime := now,
         checkInterval := checkInterval (stop now s), intervals := intervals (stop now s),
         sources := sources (stop now s)\<rparr>"
    by (simp add: stop_def clearCheckInterval_def clearInterval_def split: option.split)
  moreover have "map (\<lambda>n. n\<lparr>stopCalled := False\<rparr>) (sources (stop now s))
       = map (\<lambda>n. n\<lparr>stopCalled := False\<rparr>) (sources s)"
    by (simp add: map_stopSources)
  ultimately show ?thesis
    by (simp add: gain_connected_reachable)
qed

text \<open>
  C8. The decoder always returns an array of \<open>chunk.length div 2\<close> samples. Each index is
  decoded on its own: where the read succeeds the sample is \<open>int16 / 32768\<close>, where it
  throws the sample keeps its initial 0 and the index is logged, and the loop goes on to
  the next index either way. The ingest then pushes behind the blocks already queued,
  returns without an exception (no queued block being empty), and leaves the loop running
  with the stream not complete.
\<close>

theorem decode_failure_is_per_sample:
  "length (fst (processPCM16Chunk chunk)) = length_u8 chunk div 2
   \<and> (\<forall>i < length_u8 chunk div 2.
        fst (processPCM16Chunk chunk) ! i =
          (case getInt16 (buffer chunk) (i * 2) of
             Some v \<Rightarrow> real_of_int v / 32768
           | None \<Rightarrow> 0))
   \<and> snd (processPCM16Chunk chunk) =
        filter (\<lambda>i. getInt16 (buffer chunk) (i * 2) = None) [0..<(length_u8 chunk + 1) div 2]
   \<and> consoleErrors (enqueuePCM16 chunk s) = consoleErrors s + length (snd (processPCM16Chunk chunk))
   \<and> audioQueue (enqueuePCM16 chunk s) = audioQueue s @ blocks (fst (processPCM16Chunk chunk))
   \<and> ([] \<notin> set (audioQueue s) \<longrightarrow> fst (addPCM16 now chunk s) = None)
   \<and> isPlaying (snd (addPCM16 now chunk s))
   \<and> \<not> isStreamComplete (snd (addPCM16 now chunk s))"
  using decode_errs[of chunk]
  by (simp add: decode_length decode_nth addPCM16_flags blocks_of_addPCM16)

theorem decode_failure_is_per_sample_witness:
  "fst (processPCM16Chunk (whole [1, 0, 2, 0, 3])) = [1 / 32768, 1 / 16384]
   \<and> snd (processPCM16Chunk (whole [1, 0, 2, 0, 3])) = [2]
   \<and> getInt16 [1, 0, 2, 0, 3] 4 = None
   \<and> [] \<notin> set (audioQueue new_streamer)
   \<and> fst (addPCM16 0 (whole [1, 0, 2, 0, 3]) new_streamer) = None
   \<and> consoleErrors (enqueuePCM16 (whole [1, 0, 2, 0, 3]) new_streamer) = 1"
proof -
  let ?d = "processPCM16Chunk (whole [1, 0, 2, 0, 3])"
  note t = decode_failure_is_per_sample[of "whole [1, 0, 2, 0, 3]" new_streamer 0]
  have g: "getInt16 [1, 0, 2, 0, 3] 0 = Some 1" "getInt16 [1, 0, 2, 0, 3] 2 = Some 2"
          "getInt16 [1, 0, 2, 0, 3] 4 = None"
    by (simp_all add: getInt16_def int16_le_def)
  have q: "[] \<notin> set (audioQueue new_streamer)" "consoleErrors new_streamer = 0"
    by (simp_all add: new_streamer_def)
  note t1 = t[THEN conjunct1]
    and t2 = t[THEN conjunct2, THEN conjunct1]
    and t3 = t[THEN conjunct2, THEN conjunct2, THEN conjunct1]
    and t4 = t[THEN conjunct2, THEN conjunct2, THEN conjunct2, THEN conjunct1]
    and t6 = t[THEN conjunct2, THEN conjunct2, THEN conjunct2, THEN conjunct2, THEN conjunct2,
               THEN conjunct1]
  from t1 have l: "length (fst ?d) = 2"
    by simp
  from t2 have nth: "\<forall>i < 2. fst ?d ! i =
      (case getInt16 [1, 0, 2, 0, 3] (i * 2) of Some v \<Rightarrow> real_of_int v / 32768 | None \<Rightarrow> 0)"
    by simp
  from nth[rule_format, of 0] g(1) have n0: "fst ?d ! 0 = 1 / 32768"
    by simp
  from nth[rule_format, of 1] g(2) have n1: "fst ?d ! 1 = 1 / 16384"
    by simp
  from t3 g have e: "snd ?d = [2]"
    by simp
  from t6 q(1) have th: "fst (addPCM16 0 (whole [1, 0, 2, 0, 3]) new_streamer) = None"
    by simp
  from t4 have "consoleErrors (enqueuePCM16 (whole [1, 0, 2, 0, 3]) new_streamer)
                 = consoleErrors new_streamer + length (snd ?d)"
    by simp
  with e q(2) have c: "consoleErrors (enqueuePCM16 (whole [1, 0, 2, 0, 3]) new_streamer) = 1"
    by simp
  have "fst ?d = [1 / 32768, 1 / 16384]"
  proof (rule nth_equalityI)
    show "length (fst ?d) = length [1 / 32768, 1 / 16384 :: real]"
      using l by simp
    fix i assume "i < length (fst ?d)"
    with l have "i = 0 \<or> i = 1" by auto
    with n0 n1 show "fst ?d ! i = [1 / 32768, 1 / 16384] ! i" by auto
  qed
  with e g(3) q(1) th c show ?thesis by simp
qed

text \<open>
  C9. Where the pad is running (\<open>padGain\<close> is set), \<open>startPad\<close> changes nothing at all;
  and \<open>startPad\<close> leaves the pad running, so that a second call right after a first, with
  whatever volume, clock and random numbers, returns the state the first call made: the
  three oscillators, the filter and the gain node of the first call, and no others.
\<close>

theorem startPad_twice:
  "(padGain s \<noteq> None \<longrightarrow> startPad now' volume' rnd' s = s)
   \<and> padGain (startPad now volume rnd s) \<noteq> None
   \<and> startPad now' volume' rnd' (startPad now volume rnd s) = startPad now volume rnd s"
proof -
  have noop: "startPad now' volume' rnd' t = t" if "padGain t \<noteq> None" for t
    using that by (simp add: startPad_def)
  have running: "padGain (startPad now volume rnd s) \<noteq> None"
    by (cases "padGain s") (simp_all add: startPad_def)
  from noop[of s] running noop[OF running] show ?thesis
    by blast
qed

theorem startPad_twice_witness:
  "padGain (startPad 0 0.3 (\<lambda>i. 0.5) new_streamer) \<noteq> None
   \<and> startPad 1 0.1 (\<lambda>i. 0) (startPad 0 0.3 (\<lambda>i. 0.5) new_streamer)
       = startPad 0 0.3 (\<lambda>i. 0.5) new_streamer
   \<and> map frequency (padOscillators (startPad 1 0.1 (\<lambda>i. 0) (startPad 0 0.3 (\<lambda>i. 0.5) new_streamer)))
       = [146.83, 220, 293.66]"
proof -
  have r: "padGain (startPad 0 0.3 (\<lambda>i. 0.5) new_streamer) \<noteq> None"
    by (simp add: startPad_def new_streamer_def)
  have f: "map frequency (padOscillators (startPad 0 0.3 (\<lambda>i. 0.5) new_streamer))
             = [146.83, 220, 293.66]"
    by (simp add: startPad_def new_streamer_def freqs_def upt_rec)
  from startPad_twice[of "startPad 0 0.3 (\<lambda>i. 0.5) new_streamer" 1 "0.1" "\<lambda>i. 0" 0 "0.3" "\<lambda>i. 0.5"] r
  have "startPad 1 0.1 (\<lambda>i. 0) (startPad 0 0.3 (\<lambda>i. 0.5) new_streamer)
          = startPad 0 0.3 (\<lambda>i. 0.5) new_streamer"
    by blast
  with r f show ?thesis by simp
qed

text \<open>
  C10, as the claim has it, fails: the ingest of the three bytes 1, 0, 2 returns without
  an exception, and the block of the one sample \<open>1 / 32768\<close> is pushed on the queue and
  scheduled.
\<close>

theorem ingest_odd_length_counterexample:
  "fst (addPCM16 0 (whole [1, 0, 2]) new_streamer) = None
   \<and> audioQueue (enqueuePCM16 (whole [1, 0, 2]) new_streamer) = [[1 / 32768]]
   \<and> audioQueue new_streamer = []
   \<and> map channelData (sources (snd (addPCM16 0 (whole [1, 0, 2]) new_streamer))) = [[1 / 32768]]"
  by (simp add: run_eqs)

text \<open>
  C10, as the code has it. An ingest of an odd number \<open>2k + 1\<close> of bytes (a whole
  buffer) throws nothing: the sample array has \<open>k\<close> elements, the read of a sample at
  index \<open>k\<close> fails, is caught and logged once, and the call goes on as the call on the
  first \<open>2k\<close> bytes does, pushing the blocks of those bytes; the flag
  \<open>isStreamComplete\<close> is cleared.
\<close>

theorem ingest_odd_length:
  assumes "odd (length bs)"
  shows "fst (processPCM16Chunk (whole bs)) = le_int16_samples (butlast bs)
       \<and> snd (processPCM16Chunk (whole bs)) = [length bs div 2]
       \<and> enqueuePCM16 (whole bs) s =
           (enqueuePCM16 (whole (butlast bs)) s)\<lparr>consoleErrors := Suc (consoleErrors s)\<rparr>
       \<and> audioQueue (enqueuePCM16 (whole bs) s) = audioQueue s @ blocks (le_int16_samples (butlast bs))
       \<and> ([] \<notin> set (audioQueue s) \<longrightarrow>
            fst (addPCM16 now (whole bs) s) = None \<and>
            blocks_of (snd (addPCM16 now (whole bs) s)) =
              blocks_of s @ blocks (le_int16_samples (butlast bs)))
       \<and> \<not> isStreamComplete (snd (addPCM16 now (whole bs) s))"
proof -
  have d: "fst (processPCM16Chunk (whole bs)) = le_int16_samples (butlast bs)"
    using assms by (simp add: decode_whole le_int16_samples_butlast)
  have q: "audioQueue (enqueuePCM16 (whole bs) s) = audioQueue s @ blocks (le_int16_samples (butlast bs))"
    by (simp add: d)
  have a: "[] \<notin> set (audioQueue s) \<longrightarrow>
            fst (addPCM16 now (whole bs) s) = None \<and>
            blocks_of (snd (addPCM16 now (whole bs) s)) =
              blocks_of s @ blocks (le_int16_samples (butlast bs))"
    by (simp add: blocks_of_addPCM16 d)
  from d decode_errs_odd[OF assms] enqueue_odd[OF assms, of s] q a
       addPCM16_flags(1)[of now "whole bs" s]
  show ?thesis by blast
qed

theorem ingest_odd_length_witness:
  "odd (length [1, 0, 2 :: byte])
   \<and> fst (processPCM16Chunk (whole [1, 0, 2])) = [1 / 32768]
   \<and> snd (processPCM16Chunk (whole [1, 0, 2])) = [1]
   \<and> audioQueue (enqueuePCM16 (whole [1, 0, 2]) new_streamer) = [[1 / 32768]]
   \<and> fst (addPCM16 0 (whole [1, 0, 2]) new_streamer) = None
   \<and> blocks_of (snd (addPCM16 0 (whole [1, 0, 2]) new_streamer)) = [[1 / 32768]]"
proof -
  have o: "odd (length [1, 0, 2 :: byte])" by simp
  have q: "[] \<notin> set (audioQueue new_streamer)" "audioQueue new_streamer = []"
          "blocks_of new_streamer = []"
    by (simp_all add: new_streamer_def blocks_of_def)
  have v: "le_int16_samples (butlast [1, 0, 2]) = [1 / 32768]"
    by (simp add: int16_le_def)
  have b: "blocks [1 / 32768 :: real] = [[1 / 32768]]"
    by (simp add: blocks_short bufferSize_def)
  note t = ingest_odd_length[OF o, of new_streamer 0, unfolded v b]
  from t have 1: "fst (processPCM16Chunk (whole [1, 0, 2])) = [1 / 32768]"
    by (rule conjunct1)
  from t[THEN conjunct2, THEN conjunct1]
  have 2: "snd (processPCM16Chunk (whole [1, 0, 2])) = [1]"
    by simp
  from t[THEN conjunct2, THEN conjunct2, THEN conjunct2, THEN conjunct1] q(2)
  have 3: "audioQueue (enqueuePCM16 (whole [1, 0, 2]) new_streamer) = [[1 / 32768]]"
    by (simp del: enqueuePCM16_simps)
  from t[THEN conjunct2, THEN conjunct2, THEN conjunct2, THEN conjunct2, THEN conjunct1] q(1,3)
  have 4: "fst (addPCM16 0 (whole [1, 0, 2]) new_streamer) = None"
    and 5: "blocks_of (snd (addPCM16 0 (whole [1, 0, 2]) new_streamer)) = [[1 / 32768]]"
    by (simp_all del: enqueuePCM16_simps)
  from o 1 2 3 4 5 show ?thesis by blast
qed

end
